theory Spec2Isabelle
  imports Main "HOL-Library.Sublist"
begin

section \<open>JavaScript strings\<close>

text \<open>
  A JavaScript string is modelled as a \<^typ>\<open>string\<close>: a list of code units, restricted
  to the code units below 256 (ASCII and the Latin-1 supplement). \<open>s.length\<close> is
  \<^const>\<open>length\<close>, \<open>s.substring(0, n)\<close> is \<^const>\<open>take\<close>, \<open>s.startsWith(p)\<close> is
  \<^const>\<open>prefix\<close> and \<open>s.endsWith(p)\<close> is \<^const>\<open>suffix\<close>.
\<close>

text \<open>\<open>s.includes(p)\<close>: \<open>p\<close> occurs in \<open>s\<close> at some position.\<close>

primrec str_includes :: "string \<Rightarrow> string \<Rightarrow> bool" where
  "str_includes [] p = (p = [])"
| "str_includes (c # cs) p = (prefix p (c # cs) \<or> str_includes cs p)"

text \<open>
  The class \<open>\s\<close> of a regular expression, which is also what \<open>trim()\<close> removes:
  tab, line feed, vertical tab, form feed, carriage return, space and the
  no-break space (the members of the class below 256).
\<close>

definition is_space :: "char \<Rightarrow> bool" where
  "is_space c = (c \<in> set [CHR 0x09, CHR 0x0A, CHR 0x0B, CHR 0x0C, CHR 0x0D, CHR 0x20, CHR 0xA0])"

text \<open>The class \<open>[<>:"/\\|?*]\<close> of both sanitizers.\<close>

definition is_illegal :: "char \<Rightarrow> bool" where
  "is_illegal c = (c \<in> set [CHR ''<'', CHR ''>'', CHR '':'', CHR 0x22, CHR ''/'', CHR 0x5C,
                            CHR ''|'', CHR ''?'', CHR ''*''])"

text \<open>The class \<open>[a-zA-Z0-9]\<close>.\<close>

definition is_alnum :: "char \<Rightarrow> bool" where
  "is_alnum c = (let n = (of_char c :: nat) in
                   (97 \<le> n \<and> n \<le> 122) \<or> (65 \<le> n \<and> n \<le> 90) \<or> (48 \<le> n \<and> n \<le> 57))"

text \<open>\<open>s.replace(/[class]/g, r)\<close> for a one-character replacement \<open>r\<close>.\<close>

definition replace_class :: "(char \<Rightarrow> bool) \<Rightarrow> char \<Rightarrow> string \<Rightarrow> string" where
  "replace_class cls r s = map (\<lambda>c. if cls c then r else c) s"

text \<open>\<open>s.replace(/\s+/g, " ")\<close>: every maximal run of whitespace becomes one space.\<close>

function collapse_ws :: "string \<Rightarrow> string" where
  "collapse_ws [] = []"
| "collapse_ws (c # cs) =
     (if is_space c then CHR '' '' # collapse_ws (dropWhile is_space cs)
      else c # collapse_ws cs)"
  by pat_completeness auto
termination
  by (relation "measure length") (auto simp: le_imp_less_Suc length_dropWhile_le)

text \<open>
  Removing the leading and the trailing run of a class. With the class \<open>\s\<close> this is
  \<open>s.trim()\<close>; with \<open>[\s._]\<close> it is \<open>s.replace(/^[\s._]+|[\s._]+$/g, "")\<close>: the
  first alternative matches only at position 0 and takes the whole leading run, the second matches
  at the first position from which everything up to the end is in the class.
\<close>

definition strip_class :: "(char \<Rightarrow> bool) \<Rightarrow> string \<Rightarrow> string" where
  "strip_class cls s = rev (dropWhile cls (rev (dropWhile cls s)))"

definition trim :: "string \<Rightarrow> string" where
  "trim s = strip_class is_space s"

text \<open>\<open>e || d\<close> on strings: the empty string is falsy.\<close>

definition or_default :: "string \<Rightarrow> string \<Rightarrow> string" where
  "or_default e d = (if e = [] then d else e)"

text \<open>The classes \<open>[^\/]\<close> and \<open>[^&]\<close>.\<close>

definition not_slash :: "char \<Rightarrow> bool" where
  "not_slash c = (c \<noteq> CHR ''/'')"

definition not_amp :: "char \<Rightarrow> bool" where
  "not_amp c = (c \<noteq> CHR ''&'')"

text \<open>
  \<open>s.match(/LIT([CLASS]+)/)\<close> for a literal \<open>LIT\<close> and a character class: the
  leftmost position where \<open>LIT\<close> occurs followed by at least one character of the class; the
  capture group is the longest run of the class there. \<open>None\<close> is JavaScript's \<open>null\<close>.
\<close>

fun match_capture :: "string \<Rightarrow> (char \<Rightarrow> bool) \<Rightarrow> string \<Rightarrow> string option" where
  "match_capture lit cls [] = None"
| "match_capture lit cls (c # cs) =
     (if prefix lit (c # cs) \<and> takeWhile cls (drop (length lit) (c # cs)) \<noteq> []
      then Some (takeWhile cls (drop (length lit) (c # cs)))
      else match_capture lit cls cs)"

section \<open>background.js\<close>

subsection \<open>URL conversion\<close>

definition convertToDownloadUrl :: "string \<Rightarrow> string" where
  "convertToDownloadUrl url =
     (case match_capture ''drive.google.com/file/d/'' not_slash url of
        Some fileId \<Rightarrow> ''https://drive.google.com/uc?export=download&id='' @ fileId
      | None \<Rightarrow>
     (case match_capture ''drive.google.com/open?id='' not_amp url of
        Some fileId \<Rightarrow> ''https://drive.google.com/uc?export=download&id='' @ fileId
      | None \<Rightarrow>
     (case match_capture ''docs.google.com/document/d/'' not_slash url of
        Some docId \<Rightarrow> ''https://docs.google.com/document/d/'' @ docId @ ''/export?format=docx''
      | None \<Rightarrow>
     (case match_capture ''docs.google.com/spreadsheets/d/'' not_slash url of
        Some sheetId \<Rightarrow>
          ''https://docs.google.com/spreadsheets/d/'' @ sheetId @ ''/export?format=xlsx''
      | None \<Rightarrow>
     (case match_capture ''docs.google.com/presentation/d/'' not_slash url of
        Some slidesId \<Rightarrow> ''https://docs.google.com/presentation/d/'' @ slidesId @ ''/export/pptx''
      | None \<Rightarrow> url)))))"

subsection \<open>Sanitization\<close>

definition sanitizeFolderName :: "string \<Rightarrow> string" where
  "sanitizeFolderName name =
     (if name = [] then ''Classroom_Download''
      else or_default
             (take 100 (trim (collapse_ws (replace_class is_illegal (CHR '' '') name))))
             ''Classroom_Download'')"

text \<open>
  \<open>filename.match(/\.([a-zA-Z0-9]+)$/)\<close>, returning the whole match (element 0): a
  dot followed by the non-empty run of alphanumeric characters that ends the string.
\<close>

definition ext_match :: "string \<Rightarrow> string option" where
  "ext_match filename =
     (let e = takeWhile is_alnum (rev filename); r = dropWhile is_alnum (rev filename)
      in if e \<noteq> [] \<and> r \<noteq> [] \<and> hd r = CHR ''.'' then Some (CHR ''.'' # rev e) else None)"

text \<open>
  \<open>/\.[a-zA-Z0-9]{2,5}$/.test(filename)\<close>: the string ends with a dot followed by two
  to five alphanumeric characters.
\<close>

definition hasExtension :: "string \<Rightarrow> bool" where
  "hasExtension filename =
     (let e = takeWhile is_alnum (rev filename); r = dropWhile is_alnum (rev filename)
      in 2 \<le> length e \<and> length e \<le> 5 \<and> r \<noteq> [] \<and> hd r = CHR ''.'')"

text \<open>The extension chosen from the URL when the file name has none.\<close>

definition urlExtension :: "string \<Rightarrow> string" where
  "urlExtension url =
     (if str_includes url ''docs.google.com/document'' then ''.docx''
      else if str_includes url ''docs.google.com/spreadsheets'' then ''.xlsx''
      else if str_includes url ''docs.google.com/presentation'' then ''.pptx''
      else if str_includes url ''drive.google.com'' then ''''
      else '''')"

text \<open>The class \<open>[\s._]\<close>.\<close>

definition is_trimmable :: "char \<Rightarrow> bool" where
  "is_trimmable c = (is_space c \<or> c = CHR ''.'' \<or> c = CHR ''_'')"

text \<open>The constant \<open>sanitizedName\<close> of \<open>sanitizeFilename\<close>, from the name part.\<close>

definition sanitizedName :: "string \<Rightarrow> string" where
  "sanitizedName nameWithoutExt =
     or_default
       (take 200 (strip_class is_trimmable
          (collapse_ws (replace_class is_illegal (CHR ''_'') nameWithoutExt))))
       ''unnamed_file''"

definition sanitizeFilename :: "string \<Rightarrow> string \<Rightarrow> string" where
  "sanitizeFilename filename url =
     (if hasExtension filename then
        (let ext = (case ext_match filename of Some m \<Rightarrow> m | None \<Rightarrow> '''');
             nameWithoutExt = (if ext \<noteq> [] then take (length filename - length ext) filename
                               else filename)
         in sanitizedName nameWithoutExt @ ext)
      else sanitizedName filename @ urlExtension url)"

subsection \<open>Timestamp\<close>

text \<open>
  The local time read by \<open>new Date()\<close>: \<open>getFullYear()\<close>, \<open>getMonth()\<close> (0 to 11),
  \<open>getDate()\<close>, \<open>getHours()\<close>, \<open>getMinutes()\<close> and \<open>getSeconds()\<close>. The current
  date is in the common era, so the year is a natural number.
\<close>

record clock =
  fullYear :: nat
  month :: nat
  date :: nat
  hours :: nat
  minutes :: nat
  seconds :: nat

text \<open>The decimal digit of a number below 10; it is applied to such numbers only.\<close>

definition digit :: "nat \<Rightarrow> char" where
  "digit d = ''0123456789'' ! d"

text \<open>\<open>String(n)\<close> for a non-negative integer: its decimal digits.\<close>

function num_str :: "nat \<Rightarrow> string" where
  "num_str n = (if n < 10 then [digit n] else num_str (n div 10) @ [digit (n mod 10)])"
  by pat_completeness auto
termination
  by (relation "measure id") auto

declare num_str.simps [simp del]

text \<open>\<open>s.padStart(2, '0')\<close>.\<close>

definition padStart2 :: "string \<Rightarrow> string" where
  "padStart2 s = replicate (2 - length s) (CHR ''0'') @ s"

definition generateTimestamp :: "clock \<Rightarrow> string" where
  "generateTimestamp now =
     num_str (fullYear now) @ ''-'' @ padStart2 (num_str (month now + 1)) @ ''-'' @
     padStart2 (num_str (date now)) @ ''_'' @ padStart2 (num_str (hours now)) @ ''-'' @
     padStart2 (num_str (minutes now)) @ ''-'' @ padStart2 (num_str (seconds now))"

subsection \<open>Download handler\<close>

record attachment =
  url :: string
  filename :: string

text \<open>The argument of \<open>chrome.downloads.download\<close>.\<close>

record download_options =
  opt_url :: string
  opt_filename :: string
  saveAs :: bool

text \<open>
  What the callback of \<open>chrome.downloads.download\<close> observes: the message of
  \<open>chrome.runtime.lastError\<close> if it is set, and the download id if it is defined.
\<close>

record download_response =
  lastError :: "string option"
  downloadId :: "nat option"

text \<open>
  The download manager is a state machine of the browser: a call takes the manager's state and
  the options, and gives a response and the next state.
\<close>

type_synonym 'm download_manager = "'m \<Rightarrow> download_options \<Rightarrow> download_response \<times> 'm"

text \<open>
  \<open>downloadFile\<close>: the promise is rejected with a message (\<open>Inl\<close>) or resolved with the
  download id (\<open>Inr\<close>).
\<close>

definition downloadFile ::
  "'m download_manager \<Rightarrow> 'm \<Rightarrow> attachment \<Rightarrow> string \<Rightarrow> (string + nat) \<times> 'm" where
  "downloadFile dm m att folderName =
     (let sanitizedFilename = sanitizeFilename (filename att) (url att);
          fullPath = ''Classroom/'' @ folderName @ ''/'' @ sanitizedFilename;
          downloadUrl = convertToDownloadUrl (url att);
          (resp, m') = dm m \<lparr>opt_url = downloadUrl, opt_filename = fullPath, saveAs = False\<rparr>
      in (case lastError resp of
            Some msg \<Rightarrow> Inl msg
          | None \<Rightarrow> (case downloadId resp of
                       None \<Rightarrow> Inl ''Download failed - no download ID returned''
                     | Some i \<Rightarrow> Inr i),
          m'))"

record download_result =
  res_url :: string
  success :: bool
  res_downloadId :: "nat option"
  error :: "string option"

text \<open>The \<open>for\<close> loop of \<open>handleDownloadRequest\<close>, with \<open>results\<close> as accumulator.\<close>

fun download_loop ::
  "'m download_manager \<Rightarrow> string \<Rightarrow> attachment list \<Rightarrow> download_result list \<Rightarrow> 'm \<Rightarrow>
   download_result list \<times> 'm" where
  "download_loop dm folder [] results m = (results, m)"
| "download_loop dm folder (att # atts) results m =
     (case downloadFile dm m att folder of
        (Inr result, m') \<Rightarrow>
          download_loop dm folder atts
            (results @ [\<lparr>res_url = url att, success = True, res_downloadId = Some result,
                         error = None\<rparr>]) m'
      | (Inl message, m') \<Rightarrow>
          download_loop dm folder atts
            (results @ [\<lparr>res_url = url att, success = False, res_downloadId = None,
                         error = Some message\<rparr>]) m')"

text \<open>
  The session folder of \<open>handleDownloadRequest\<close>. The assignment name of the message may be
  absent (\<open>None\<close>); \<open>assignmentName || "Classroom_Downloads"\<close> replaces an absent or empty
  name.
\<close>

definition sessionFolder :: "string option \<Rightarrow> clock \<Rightarrow> string" where
  "sessionFolder assignmentName now =
     (let folderName = sanitizeFolderName
            (case assignmentName of None \<Rightarrow> ''Classroom_Downloads''
             | Some n \<Rightarrow> or_default n ''Classroom_Downloads'');
          timestamp = generateTimestamp now
      in folderName @ ''_'' @ timestamp)"

definition handleDownloadRequest ::
  "'m download_manager \<Rightarrow> 'm \<Rightarrow> clock \<Rightarrow> attachment list \<Rightarrow> string option \<Rightarrow>
   download_result list \<times> 'm" where
  "handleDownloadRequest dm m now attachments assignmentName =
     download_loop dm (sessionFolder assignmentName now) attachments [] m"

section \<open>content.js\<close>

definition VALID_EXTENSIONS :: "string list" where
  "VALID_EXTENSIONS =
     [''pptx'', ''ppt'', ''docx'', ''doc'', ''xlsx'', ''xls'',
      ''pdf'', ''txt'', ''zip'', ''rar'', ''7z'',
      ''jpg'', ''jpeg'', ''png'', ''gif'', ''bmp'',
      ''mp4'', ''mp3'', ''wav'', ''avi'', ''mov'']"

text \<open>
  \<open>toLowerCase\<close> on one code unit below 256: the ASCII capitals (65 to 90) and the
  Latin-1 capitals (192 to 222 without the multiplication sign 215) move up by 32. Bit 5, of
  value 32, is clear in every one of these code units, so adding 32 sets that bit.
\<close>

definition lower_char :: "char \<Rightarrow> char" where
  "lower_char c =
     (let n = (of_char c :: nat)
      in if (65 \<le> n \<and> n \<le> 90) \<or> (192 \<le> n \<and> n \<le> 222 \<and> n \<noteq> 215)
         then (case c of Char b0 b1 b2 b3 b4 b5 b6 b7 \<Rightarrow> Char b0 b1 b2 b3 b4 True b6 b7)
         else c)"

definition toLowerCase :: "string \<Rightarrow> string" where
  "toLowerCase s = map lower_char s"

definition hasValidExtension :: "string \<Rightarrow> bool" where
  "hasValidExtension fname =
     (let lower = toLowerCase fname
      in list_ex (\<lambda>ext. suffix (CHR ''.'' # ext) lower) VALID_EXTENSIONS)"

definition isNavigationLink :: "string \<Rightarrow> bool" where
  "isNavigationLink u =
     (if str_includes u ''/c/'' \<and> str_includes u ''/details'' then False
      else if str_includes u ''/c/'' \<and> \<not> str_includes u ''drive.google.com'' \<and>
              \<not> str_includes u ''docs.google.com'' then True
      else False)"

text \<open>
  What \<open>extractFilename\<close> and \<open>scanForFiles\<close> read of an anchor element: the \<open>href\<close>
  attribute as written (tested by the selector), the resolved \<open>link.href\<close>, the text content,
  the text content of the title element inside the nearest enclosing card (\<open>None\<close> when there
  is no card or no title element in it), and the \<open>title\<close> and \<open>aria-label\<close> attributes
  (\<open>None\<close> when \<open>getAttribute\<close> gives \<open>null\<close>).
\<close>

record anchor =
  href_attr :: string
  href :: string
  textContent :: string
  cardTitle :: "string option"
  titleAttr :: "string option"
  ariaLabel :: "string option"

definition is_line_break :: "char \<Rightarrow> bool" where
  "is_line_break c = (c = CHR 0x0A \<or> c = CHR 0x0D)"

text \<open>\<open>s.split(/[\n\r]/)[0]\<close>: the text before the first line break.\<close>

definition first_line :: "string \<Rightarrow> string" where
  "first_line s = takeWhile (\<lambda>c. \<not> is_line_break c) s"

text \<open>Matching a literal under the flag \<open>i\<close>: the literals used are ASCII.\<close>

definition prefix_ci :: "string \<Rightarrow> string \<Rightarrow> bool" where
  "prefix_ci lit s = prefix (toLowerCase lit) (toLowerCase (take (length lit) s))"

text \<open>
  \<open>s.replace(/LIT.*$/i, "")\<close>: the text from the leftmost occurrence of \<open>LIT\<close>, in any
  case, after which no line break follows (\<open>.\<close> does not match one) is removed.
\<close>

fun cut_from_ci :: "string \<Rightarrow> string \<Rightarrow> string" where
  "cut_from_ci lit [] = []"
| "cut_from_ci lit (c # cs) =
     (if prefix_ci lit (c # cs) \<and> list_all (\<lambda>x. \<not> is_line_break x) (drop (length lit) (c # cs))
      then [] else c # cut_from_ci lit cs)"

text \<open>
  The alternatives \<open>pptx?|docx?|xlsx?|pdf|txt|zip|rar|7z|jpe?g|png|gif|bmp|mp[34]|wav|avi|mov\<close>
  in the order in which a backtracking matcher tries them (an optional character is tried
  present first).
\<close>

definition ext_alternatives :: "string list" where
  "ext_alternatives =
     [''pptx'', ''ppt'', ''docx'', ''doc'', ''xlsx'', ''xls'', ''pdf'', ''txt'', ''zip'',
      ''rar'', ''7z'', ''jpeg'', ''jpg'', ''png'', ''gif'', ''bmp'', ''mp3'', ''mp4'', ''wav'',
      ''avi'', ''mov'']"

text \<open>
  \<open>s.match(/^(.+?\.(ALTERNATIVES))/i)\<close>, element 1: the shortest non-empty prefix without
  line break that is followed by a dot and one of the alternatives, together with that dot and
  the first alternative that matches. \<open>pre\<close> is the part of the string already passed.
\<close>

fun ext_prefix :: "string \<Rightarrow> string \<Rightarrow> string option" where
  "ext_prefix pre [] = None"
| "ext_prefix pre (c # cs) =
     (case (if pre \<noteq> [] \<and> c = CHR ''.'' then find (\<lambda>e. prefix_ci e cs) ext_alternatives
            else None) of
        Some e \<Rightarrow> Some (pre @ CHR ''.'' # take (length e) cs)
      | None \<Rightarrow> if is_line_break c then None else ext_prefix (pre @ [c]) cs)"

definition usable :: "string \<Rightarrow> bool" where
  "usable fname = (fname \<noteq> [] \<and> 2 \<le> length fname)"

definition extractFilename :: "anchor \<Rightarrow> string" where
  "extractFilename link =
     (let linkText = textContent link;
          f0 = trim (first_line linkText);
          f1 = trim (cut_from_ci ''Google Slides'' (cut_from_ci ''Google Sheets''
                 (cut_from_ci ''Google Docs'' (cut_from_ci ''Microsoft Excel''
                 (cut_from_ci ''Microsoft Word'' (cut_from_ci ''Microsoft PowerPoint'' f0))))));
          f2 = (case ext_prefix [] f1 of Some m \<Rightarrow> m | None \<Rightarrow> f1);
          f3 = (if \<not> usable f2 then
                  (case cardTitle link of Some t \<Rightarrow> first_line (trim t) | None \<Rightarrow> f2)
                else f2);
          f4 = (if \<not> usable f3 then
                  trim (first_line
                    (case titleAttr link of
                       Some t \<Rightarrow> if t \<noteq> [] then t
                                  else (case ariaLabel link of Some a \<Rightarrow> a | None \<Rightarrow> [])
                     | None \<Rightarrow> (case ariaLabel link of Some a \<Rightarrow> a | None \<Rightarrow> [])))
                else f3);
          f5 = trim (collapse_ws f4)
      in if \<not> usable f5 then ''unknown_file'' else f5)"

text \<open>The state of the \<open>forEach\<close> of \<open>scanForFiles\<close>: \<open>files\<close> and \<open>seenUrls\<close>.\<close>

definition scan_step ::
  "attachment list \<times> string set \<Rightarrow> anchor \<Rightarrow> attachment list \<times> string set" where
  "scan_step st link =
     (let (files, seenUrls) = st; u = href link
      in if u = [] \<or> u \<in> seenUrls then st
         else if isNavigationLink u then st
         else let fname = extractFilename link
              in if \<not> hasValidExtension fname then st
                 else (files @ [\<lparr>url = u, filename = fname\<rparr>], insert u seenUrls))"

text \<open>
  A document is the list of its anchor elements that have an \<open>href\<close> attribute, in document
  order; the selector keeps those whose attribute contains one of the two hosting domains.
\<close>

definition scanForFiles :: "anchor list \<Rightarrow> attachment list" where
  "scanForFiles document =
     (let links = filter (\<lambda>a. str_includes (href_attr a) ''drive.google.com'' \<or>
                              str_includes (href_attr a) ''docs.google.com'') document
      in fst (foldl scan_step ([], {}) links))"

section \<open>Notions used to state the properties\<close>

text \<open>
  The responses that the download manager gives during a batch, in the order of the calls: one
  call per attachment, each from the state that the previous call left.
\<close>

fun manager_responses ::
  "'m download_manager \<Rightarrow> string \<Rightarrow> attachment list \<Rightarrow> 'm \<Rightarrow> download_response list" where
  "manager_responses dm folder [] m = []"
| "manager_responses dm folder (att # atts) m =
     (let (resp, m') = dm m \<lparr>opt_url = convertToDownloadUrl (url att),
                              opt_filename = ''Classroom/'' @ folder @ ''/'' @
                                sanitizeFilename (filename att) (url att),
                              saveAs = False\<rparr>
      in resp # manager_responses dm folder atts m')"

text \<open>A call succeeds when the manager reports no error and returns a download id.\<close>

definition call_succeeds :: "download_response \<Rightarrow> bool" where
  "call_succeeds resp = (lastError resp = None \<and> downloadId resp \<noteq> None)"

text \<open>The result that the specification asks for one attachment and the response to its call.\<close>

definition expected_result :: "attachment \<Rightarrow> download_response \<Rightarrow> download_result" where
  "expected_result att resp =
     (if call_succeeds resp
      then \<lparr>res_url = url att, success = True, res_downloadId = downloadId resp, error = None\<rparr>
      else \<lparr>res_url = url att, success = False, res_downloadId = None,
             error = Some (case lastError resp of Some msg \<Rightarrow> msg
                           | None \<Rightarrow> ''Download failed - no download ID returned'')\<rparr>)"

text \<open>The candidates of a scan: the anchors that the selector of \<open>scanForFiles\<close> keeps.\<close>

definition selected :: "anchor \<Rightarrow> bool" where
  "selected a = (str_includes (href_attr a) ''drive.google.com'' \<or>
                 str_includes (href_attr a) ''docs.google.com'')"

text \<open>
  A download manager for examples: its state counts the calls; the second call reports an
  error, every other call returns a download id.
\<close>

definition second_call_fails :: "nat download_manager" where
  "second_call_fails n opts =
     (if n = 1 then \<lparr>lastError = Some ''Network error'', downloadId = None\<rparr>
      else \<lparr>lastError = None, downloadId = Some (100 + n)\<rparr>, n + 1)"

text \<open>
  The shapes of URLs. \<open>matches_here\<close>: the string starts with the literal followed by at
  least one character of the class. \<open>has_shape\<close>: the URL contains the literal followed by
  a non-empty identifier. \<open>first_id\<close>: the URL is \<open>pre\<close>, the literal, the identifier
  \<open>ID\<close> and \<open>post\<close>, where the identifier is not empty, lies in the class, ends at the end
  of the URL or before a character outside the class, and no literal followed by an identifier
  starts inside \<open>pre\<close>.
\<close>

definition matches_here :: "string \<Rightarrow> (char \<Rightarrow> bool) \<Rightarrow> string \<Rightarrow> bool" where
  "matches_here lit cls s = (prefix lit s \<and> takeWhile cls (drop (length lit) s) \<noteq> [])"

definition has_shape :: "string \<Rightarrow> (char \<Rightarrow> bool) \<Rightarrow> string \<Rightarrow> bool" where
  "has_shape lit cls u = list_ex (\<lambda>k. matches_here lit cls (drop k u)) [0..<length u]"

definition first_id ::
  "string \<Rightarrow> (char \<Rightarrow> bool) \<Rightarrow> string \<Rightarrow> string \<Rightarrow> string \<Rightarrow> string \<Rightarrow> bool" where
  "first_id lit cls u pre ID post =
     (u = pre @ lit @ ID @ post \<and> ID \<noteq> [] \<and> list_all cls ID \<and>
      (post = [] \<or> \<not> cls (hd post)) \<and>
      list_all (\<lambda>k. \<not> matches_here lit cls (drop k u)) [0..<length pre])"

text \<open>Two anchors for examples: a link to a PDF file and a link to an executable.\<close>

definition notes_anchor :: anchor where
  "notes_anchor =
     \<lparr>href_attr = ''https://drive.google.com/file/d/A/view'',
      href = ''https://drive.google.com/file/d/A/view'',
      textContent = ''notes.pdf'', cardTitle = None, titleAttr = None, ariaLabel = None\<rparr>"

definition setup_anchor :: anchor where
  "setup_anchor =
     \<lparr>href_attr = ''https://drive.google.com/file/d/B/view'',
      href = ''https://drive.google.com/file/d/B/view'',
      textContent = ''setup.exe'', cardTitle = None, titleAttr = None, ariaLabel = None\<rparr>"

text \<open>
  The name part of a file name: the name without its recognized extension, as
  \<open>sanitizeFilename\<close> splits it.
\<close>

definition name_part :: "string \<Rightarrow> string" where
  "name_part fname =
     (if hasExtension fname
      then (case ext_match fname of Some m \<Rightarrow> take (length fname - length m) fname
            | None \<Rightarrow> fname)
      else fname)"

text \<open>
  A string is single-spaced when its only whitespace characters are spaces and no two of them
  are adjacent: the strings that \<open>replace(/\s+/g, " ")\<close> leaves unchanged.
\<close>

fun spaced :: "string \<Rightarrow> bool" where
  "spaced [] = True"
| "spaced (c # cs) =
     ((if is_space c then c = CHR '' '' \<and> (case cs of [] \<Rightarrow> True | d # _ \<Rightarrow> \<not> is_space d)
       else True) \<and> spaced cs)"

text \<open>
  A tidy name, for a class of trimmed characters: not empty, without illegal characters,
  single-spaced, and not starting with a character of the class.
\<close>

definition tidy :: "(char \<Rightarrow> bool) \<Rightarrow> string \<Rightarrow> bool" where
  "tidy cls s = (s \<noteq> [] \<and> list_all (\<lambda>c. \<not> is_illegal c) s \<and> spaced s \<and> \<not> cls (hd s))"

section \<open>Properties\<close>

subsection \<open>Substrings\<close>

lemma str_includes_iff: "str_includes s p \<longleftrightarrow> (\<exists>a b. s = a @ p @ b)"
proof (induction s)
  case Nil
  then show ?case by auto
next
  case (Cons c cs)
  show ?case
  proof
    assume "str_includes (c # cs) p"
    then consider "prefix p (c # cs)" | "str_includes cs p" by auto
    then show "\<exists>a b. c # cs = a @ p @ b"
    proof cases
      case 1
      then obtain b where "c # cs = p @ b" by (auto simp: prefix_def)
      then have "c # cs = [] @ p @ b" by simp
      then show ?thesis by blast
    next
      case 2
      with Cons.IH obtain a b where "cs = a @ p @ b" by blast
      then have "c # cs = (c # a) @ p @ b" by simp
      then show ?thesis by blast
    qed
  next
    assume "\<exists>a b. c # cs = a @ p @ b"
    then obtain a b where ab: "c # cs = a @ p @ b" by blast
    show "str_includes (c # cs) p"
    proof (cases a)
      case Nil
      with ab have "prefix p (c # cs)" by (simp add: prefix_def)
      then show ?thesis by simp
    next
      case (Cons x a')
      with ab have "cs = a' @ p @ b" by simp
      with Cons.IH have "str_includes cs p" by blast
      then show ?thesis by simp
    qed
  qed
qed

subsection \<open>Lower case\<close>

text \<open>Setting bit 5 adds 32 to the code units that \<open>lower_char\<close> changes.\<close>

lemma lower_char_plus_32:
  assumes "(65 \<le> (of_char c :: nat) \<and> (of_char c :: nat) \<le> 90) \<or>
           (192 \<le> (of_char c :: nat) \<and> (of_char c :: nat) \<le> 222 \<and> (of_char c :: nat) \<noteq> 215)"
  shows "(of_char (lower_char c) :: nat) = of_char c + 32"
proof (cases c)
  case (Char b0 b1 b2 b3 b4 b5 b6 b7)
  with assms have "\<not> b5"
    by (cases b0; cases b1; cases b2; cases b3; cases b4; cases b5; cases b6; cases b7) simp_all
  with assms Char show ?thesis by (simp add: lower_char_def)
qed
lemma lower_char_other:
  assumes "\<not> ((65 \<le> (of_char c :: nat) \<and> (of_char c :: nat) \<le> 90) \<or>
           (192 \<le> (of_char c :: nat) \<and> (of_char c :: nat) \<le> 222 \<and> (of_char c :: nat) \<noteq> 215))"
  shows "lower_char c = c"
  using assms unfolding lower_char_def Let_def by (simp only: if_False)

subsection \<open>The file name example\<close>

lemma hasExtension_my_file: "hasExtension ''My File?.pdf''"
  by code_simp

lemma ext_match_my_file: "ext_match ''My File?.pdf'' = Some ''.pdf''"
  by code_simp

lemma sanitizedName_my_file: "sanitizedName ''My File?'' = ''My File''"
  by code_simp

text \<open>
  Claim C2, as the code has it: \<open>sanitizeFilename\<close> applied to \<open>"My File?.pdf"\<close> returns
  \<open>"My File.pdf"\<close>, for every url. The question mark of the name part becomes an underscore,
  and that underscore, now the last character of the name part, is removed with the trailing
  whitespace, dots and underscores; the extension \<open>.pdf\<close> is kept.
\<close>

theorem sanitizeFilename_my_file: "sanitizeFilename ''My File?.pdf'' u = ''My File.pdf''"
  by (simp add: sanitizeFilename_def hasExtension_my_file ext_match_my_file
      sanitizedName_my_file)

text \<open>
  Claim C2 as stated fails: the result is not \<open>"My File_.pdf"\<close> (here with the default
  url, the empty string).
\<close>

theorem sanitizeFilename_my_file_counterexample:
  "sanitizeFilename ''My File?.pdf'' '''' \<noteq> ''My File_.pdf''"
  by code_simp

subsection \<open>Navigation links\<close>

text \<open>
  Claim C7: \<open>isNavigationLink\<close> holds of a URL if and only if the URL contains \<open>/c/\<close> and
  neither \<open>drive.google.com\<close> nor \<open>docs.google.com\<close>, outside the carve-out; the carve-out
  comes first: a URL that contains both \<open>/c/\<close> and \<open>/details\<close> is never a navigation
  link, whether or not it contains a hosting domain.
\<close>

theorem isNavigationLink_iff:
  "(isNavigationLink u \<longleftrightarrow>
      \<not> (str_includes u ''/c/'' \<and> str_includes u ''/details'') \<and>
      str_includes u ''/c/'' \<and> \<not> str_includes u ''drive.google.com'' \<and>
      \<not> str_includes u ''docs.google.com'') \<and>
   (str_includes u ''/c/'' \<and> str_includes u ''/details'' \<longrightarrow> \<not> isNavigationLink u)"
  by (auto simp: isNavigationLink_def)

text \<open>
  A detail page of a course contains \<open>/c/\<close> and \<open>/details\<close> and no hosting domain: it is
  kept.
\<close>

theorem isNavigationLink_iff_witness:
  "str_includes ''https://classroom.google.com/c/NjE/a/MTI/details'' ''/c/'' \<and>
   str_includes ''https://classroom.google.com/c/NjE/a/MTI/details'' ''/details'' \<and>
   \<not> str_includes ''https://classroom.google.com/c/NjE/a/MTI/details'' ''drive.google.com'' \<and>
   \<not> str_includes ''https://classroom.google.com/c/NjE/a/MTI/details'' ''docs.google.com'' \<and>
   \<not> isNavigationLink ''https://classroom.google.com/c/NjE/a/MTI/details''"
  using isNavigationLink_iff [of "''https://classroom.google.com/c/NjE/a/MTI/details''"]
  by simp

subsection \<open>Timestamp and session folder\<close>

lemma num_str_one_digit: "n < 10 \<Longrightarrow> num_str n = [digit n]"
  by (simp add: num_str.simps)

lemma num_str_two_digits:
  assumes "10 \<le> n" "n < 100"
  shows "num_str n = [digit (n div 10), digit (n mod 10)]"
proof -
  from assms have "n div 10 < 10" by simp
  then have "num_str (n div 10) = [digit (n div 10)]" by (rule num_str_one_digit)
  with assms show ?thesis by (subst num_str.simps) simp
qed

lemma padStart2_num_str:
  assumes "n < 100"
  shows "padStart2 (num_str n) = [digit (n div 10), digit (n mod 10)]"
proof (cases "n < 10")
  case True
  then show ?thesis by (simp add: num_str_one_digit padStart2_def digit_def)
next
  case False
  with assms show ?thesis by (simp add: num_str_two_digits padStart2_def)
qed

lemma num_str_four_digits:
  assumes "1000 \<le> y" "y < 10000"
  shows "num_str y = [digit (y div 1000), digit (y div 100 mod 10), digit (y div 10 mod 10),
                      digit (y mod 10)]"
proof -
  have a: "num_str y = num_str (y div 10) @ [digit (y mod 10)]"
    using assms by (subst num_str.simps) simp
  have b: "num_str (y div 10) = num_str (y div 10 div 10) @ [digit (y div 10 mod 10)]"
    using assms by (subst num_str.simps) simp
  have c: "y div 10 div 10 = y div 100" by (simp add: div_mult2_eq)
  have d: "num_str (y div 100) = [digit (y div 100 div 10), digit (y div 100 mod 10)]"
    using assms by (intro num_str_two_digits) simp_all
  have e: "y div 100 div 10 = y div 1000" by (simp add: div_mult2_eq)
  show ?thesis by (simp add: a b c d e)
qed

text \<open>
  For a clock of a year with four digits, the timestamp is \<open>YYYY-MM-DD_HH-MM-SS\<close>, every
  field in decimal and padded with zeros; the month is counted from 1.
\<close>

lemma generateTimestamp_format:
  assumes "1000 \<le> fullYear now" "fullYear now \<le> 9999" "month now \<le> 11" "date now \<le> 31"
    "hours now \<le> 23" "minutes now \<le> 59" "seconds now \<le> 59"
  shows "generateTimestamp now =
        [digit (fullYear now div 1000), digit (fullYear now div 100 mod 10),
         digit (fullYear now div 10 mod 10), digit (fullYear now mod 10), CHR ''-'',
         digit ((month now + 1) div 10), digit ((month now + 1) mod 10), CHR ''-'',
         digit (date now div 10), digit (date now mod 10), CHR ''_'',
         digit (hours now div 10), digit (hours now mod 10), CHR ''-'',
         digit (minutes now div 10), digit (minutes now mod 10), CHR ''-'',
         digit (seconds now div 10), digit (seconds now mod 10)]"
  using assms by (simp add: generateTimestamp_def num_str_four_digits padStart2_num_str)

lemma sanitizeFolderName_homework: "sanitizeFolderName ''Homework #1: A/B'' = ''Homework #1 A B''"
  by code_simp

text \<open>
  Claim C9: for the label \<open>"Homework #1: A/B"\<close> and any clock, the session folder is
  \<open>"Homework #1 A B_"\<close> followed by the timestamp of that clock: the colon and the slash are
  replaced and the two spaces they leave next to the existing spaces are merged. For a clock of a
  four-digit year the timestamp is \<open>YYYY-MM-DD_HH-MM-SS\<close> in zero-padded decimal digits.
\<close>

theorem sessionFolder_homework:
  "sessionFolder (Some ''Homework #1: A/B'') now = ''Homework #1 A B_'' @ generateTimestamp now \<and>
   (1000 \<le> fullYear now \<and> fullYear now \<le> 9999 \<and> month now \<le> 11 \<and> date now \<le> 31 \<and>
    hours now \<le> 23 \<and> minutes now \<le> 59 \<and> seconds now \<le> 59 \<longrightarrow>
    generateTimestamp now =
      [digit (fullYear now div 1000), digit (fullYear now div 100 mod 10),
       digit (fullYear now div 10 mod 10), digit (fullYear now mod 10), CHR ''-'',
       digit ((month now + 1) div 10), digit ((month now + 1) mod 10), CHR ''-'',
       digit (date now div 10), digit (date now mod 10), CHR ''_'',
       digit (hours now div 10), digit (hours now mod 10), CHR ''-'',
       digit (minutes now div 10), digit (minutes now mod 10), CHR ''-'',
       digit (seconds now div 10), digit (seconds now mod 10)])"
  by (simp add: sessionFolder_def or_default_def sanitizeFolderName_homework
      generateTimestamp_format)

text \<open>The clock at 2026-11-02 13:30:00 local time (November is month 10).\<close>

theorem sessionFolder_homework_witness:
  "sessionFolder (Some ''Homework #1: A/B'')
     \<lparr>fullYear = 2026, month = 10, date = 2, hours = 13, minutes = 30, seconds = 0\<rparr> =
   ''Homework #1 A B_2026-11-02_13-30-00''"
  using sessionFolder_homework
    [of "\<lparr>fullYear = 2026, month = 10, date = 2, hours = 13, minutes = 30, seconds = 0\<rparr>"]
  by (simp add: digit_def)

subsection \<open>The two fallback folder names\<close>

lemma strip_class_all: "list_all cls s \<Longrightarrow> strip_class cls s = []"
proof -
  assume "list_all cls s"
  then have h: "dropWhile cls s = []" by (simp add: list_all_iff)
  show ?thesis by (simp add: strip_class_def h)
qed

lemma is_space_blank: "is_space (CHR '' '')"
  by (simp add: is_space_def)

lemma collapse_ws_all_space: "list_all is_space s \<Longrightarrow> list_all is_space (collapse_ws s)"
proof (induction s rule: collapse_ws.induct)
  case 1
  then show ?case by simp
next
  case (2 c cs)
  from "2.prems" have c: "is_space c" and cs: "list_all is_space cs" by simp_all
  from cs have h: "dropWhile is_space cs = []" by (simp add: list_all_iff)
  from c show ?case by (simp add: is_space_blank h)
qed

lemma sanitizeFolderName_Downloads:
  "sanitizeFolderName ''Classroom_Downloads'' = ''Classroom_Downloads''"
  by code_simp

lemma sanitizeFolderName_blank:
  assumes "\<forall>c\<in>set label. is_illegal c \<or> is_space c"
  shows "sanitizeFolderName label = ''Classroom_Download''"
proof -
  have "list_all is_space (replace_class is_illegal (CHR '' '') label)"
    using assms by (auto simp: replace_class_def list_all_iff is_space_def)
  then have "trim (collapse_ws (replace_class is_illegal (CHR '' '') label)) = []"
    unfolding trim_def by (intro strip_class_all collapse_ws_all_space)
  then show ?thesis by (simp add: sanitizeFolderName_def or_default_def)
qed

text \<open>
  Claim C10: the prefix of the session folder is \<open>Classroom_Downloads\<close> when the label is
  absent or empty, and the different name \<open>Classroom_Download\<close> when the label is not empty
  but consists of illegal characters and whitespace only, so that its sanitization is empty.
\<close>

theorem sessionFolder_fallbacks:
  "sessionFolder None now = ''Classroom_Downloads_'' @ generateTimestamp now \<and>
   sessionFolder (Some '''') now = ''Classroom_Downloads_'' @ generateTimestamp now \<and>
   (label \<noteq> [] \<and> (\<forall>c\<in>set label. is_illegal c \<or> is_space c) \<longrightarrow>
      sessionFolder (Some label) now = ''Classroom_Download_'' @ generateTimestamp now) \<and>
   ''Classroom_Downloads'' \<noteq> ''Classroom_Download''"
  by (simp add: sessionFolder_def or_default_def sanitizeFolderName_Downloads
      sanitizeFolderName_blank)

text \<open>The label \<open>"?? / "\<close> is not empty and sanitizes to the empty string.\<close>

theorem sessionFolder_fallbacks_witness:
  "''?? / '' \<noteq> [] \<and> list_all (\<lambda>c. is_illegal c \<or> is_space c) ''?? / '' \<and>
   sessionFolder (Some ''?? / '')
     \<lparr>fullYear = 2026, month = 10, date = 2, hours = 13, minutes = 30, seconds = 0\<rparr> =
   ''Classroom_Download_'' @ generateTimestamp
     \<lparr>fullYear = 2026, month = 10, date = 2, hours = 13, minutes = 30, seconds = 0\<rparr>"
  using sessionFolder_fallbacks
    [of "\<lparr>fullYear = 2026, month = 10, date = 2, hours = 13, minutes = 30, seconds = 0\<rparr>"
        "''?? / ''"]
  by (simp add: is_illegal_def is_space_def)

subsection \<open>URL conversion\<close>

lemma match_capture_here:
  "matches_here lit cls s \<Longrightarrow> match_capture lit cls s = Some (takeWhile cls (drop (length lit) s))"
  by (cases s) (auto simp: matches_here_def)

lemma match_capture_skip:
  "\<not> matches_here lit cls (c # cs) \<Longrightarrow> match_capture lit cls (c # cs) = match_capture lit cls cs"
  by (auto simp: matches_here_def)

lemma match_capture_append:
  "\<forall>k<length pre. \<not> matches_here lit cls (drop k (pre @ s)) \<Longrightarrow>
   match_capture lit cls (pre @ s) = match_capture lit cls s"
proof (induction pre)
  case Nil
  then show ?case by simp
next
  case (Cons p pre)
  from Cons.prems have "\<not> matches_here lit cls (drop 0 ((p # pre) @ s))" by blast
  then have 0: "\<not> matches_here lit cls (p # pre @ s)" by simp
  have "\<forall>k<length pre. \<not> matches_here lit cls (drop k (pre @ s))"
  proof (intro allI impI)
    fix k assume "k < length pre"
    then have "Suc k < length (p # pre)" by simp
    with Cons.prems have "\<not> matches_here lit cls (drop (Suc k) ((p # pre) @ s))" by blast
    then show "\<not> matches_here lit cls (drop k (pre @ s))" by simp
  qed
  then have "match_capture lit cls (pre @ s) = match_capture lit cls s" by (rule Cons.IH)
  moreover from 0 have "match_capture lit cls (p # pre @ s) = match_capture lit cls (pre @ s)"
    by (rule match_capture_skip)
  ultimately show ?case by (simp del: match_capture.simps)
qed

lemma takeWhile_id:
  assumes "list_all cls ID" "post = [] \<or> \<not> cls (hd post)"
  shows "takeWhile cls (ID @ post) = ID"
proof -
  from assms(2) have "takeWhile cls post = []" by (cases post) auto
  with assms(1) show ?thesis by (simp add: takeWhile_append2 list_all_iff)
qed

lemma first_id_capture:
  assumes "first_id lit cls u pre ID post"
  shows "match_capture lit cls u = Some ID"
proof -
  from assms have u: "u = pre @ lit @ ID @ post" and ne: "ID \<noteq> []" and cl: "list_all cls ID"
    and en: "post = [] \<or> \<not> cls (hd post)"
    and fi: "\<forall>k<length pre. \<not> matches_here lit cls (drop k (pre @ lit @ ID @ post))"
    by (auto simp: first_id_def list_all_iff)
  have tw: "takeWhile cls (ID @ post) = ID" using cl en by (rule takeWhile_id)
  with ne have "matches_here lit cls (lit @ ID @ post)" by (simp add: matches_here_def)
  then have "match_capture lit cls (lit @ ID @ post) = Some ID"
    using tw by (simp add: match_capture_here)
  moreover from fi have "match_capture lit cls (pre @ lit @ ID @ post) =
      match_capture lit cls (lit @ ID @ post)" by (rule match_capture_append)
  ultimately show ?thesis using u by simp
qed

lemma no_shape_capture:
  assumes "\<not> has_shape lit cls u"
  shows "match_capture lit cls u = None"
proof -
  from assms have "\<forall>k<length u. \<not> matches_here lit cls (drop k (u @ []))"
    by (auto simp: has_shape_def list_ex_iff)
  then have "match_capture lit cls (u @ []) = match_capture lit cls []"
    by (rule match_capture_append)
  then show ?thesis by simp
qed

lemma has_shape_iff:
  "has_shape lit cls u \<longleftrightarrow> (\<exists>pre c post. u = pre @ lit @ c # post \<and> cls c)"
proof
  assume "has_shape lit cls u"
  then obtain k where k: "k < length u" "matches_here lit cls (drop k u)"
    by (auto simp: has_shape_def list_ex_iff)
  from k(2) obtain r where r1: "drop k u = lit @ r"
    by (auto simp: matches_here_def prefix_def)
  with k(2) have r2: "takeWhile cls r \<noteq> []" by (simp add: matches_here_def)
  note r = r1 r2
  from r(2) obtain c post where cp: "r = c # post" "cls c"
    by (cases r) (auto split: if_splits)
  have "u = take k u @ drop k u" by simp
  with r(1) cp(1) have "u = take k u @ lit @ c # post" by simp
  with cp(2) show "\<exists>pre c post. u = pre @ lit @ c # post \<and> cls c" by blast
next
  assume "\<exists>pre c post. u = pre @ lit @ c # post \<and> cls c"
  then obtain pre c post where u: "u = pre @ lit @ c # post" and c: "cls c" by blast
  have "drop (length pre) u = lit @ c # post" using u by simp
  with c have "matches_here lit cls (drop (length pre) u)" by (simp add: matches_here_def)
  moreover have "length pre < length u" using u by simp
  ultimately show "has_shape lit cls u" by (auto simp: has_shape_def list_ex_iff)
qed

lemma has_shape_includes: "has_shape lit cls u \<Longrightarrow> str_includes u lit"
proof -
  assume "has_shape lit cls u"
  then obtain pre c post where "u = pre @ lit @ c # post" by (auto simp: has_shape_iff)
  then show ?thesis unfolding str_includes_iff by blast
qed

lemma capture_has_shape: "match_capture lit cls u = Some ID \<Longrightarrow> has_shape lit cls u"
proof -
  assume a: "match_capture lit cls u = Some ID"
  show ?thesis
  proof (rule ccontr)
    assume "\<not> has_shape lit cls u"
    then have "match_capture lit cls u = None" by (rule no_shape_capture)
    with a show False by simp
  qed
qed

lemma str_includes_prefix: "str_includes u (a @ b) \<Longrightarrow> str_includes u a"
proof -
  assume "str_includes u (a @ b)"
  then obtain x y where "u = x @ (a @ b) @ y" unfolding str_includes_iff by blast
  then have "u = x @ a @ (b @ y)" by simp
  then show ?thesis unfolding str_includes_iff by blast
qed

text \<open>
  Claim C1: \<open>convertToDownloadUrl\<close> follows the recognized shapes, the first that matches
  winning. With \<open>ID\<close> the identifier of the first occurrence of the shape in the URL:
  \<open>drive.google.com/file/d/ID\<close> gives \<open>https://drive.google.com/uc?export=download&id=ID\<close>;
  otherwise \<open>drive.google.com/open?id=ID\<close> gives the same direct-export URL; otherwise
  \<open>docs.google.com/document/d/ID\<close>, \<open>docs.google.com/spreadsheets/d/ID\<close> and
  \<open>docs.google.com/presentation/d/ID\<close>, in this order, give the export endpoint of that host
  for \<open>ID\<close> with the format docx, xlsx and pptx; a URL of none of the five shapes is returned
  unchanged.
\<close>

theorem convertToDownloadUrl_cases:
  "(first_id ''drive.google.com/file/d/'' not_slash u pre ID post \<longrightarrow>
      convertToDownloadUrl u = ''https://drive.google.com/uc?export=download&id='' @ ID) \<and>
   (\<not> has_shape ''drive.google.com/file/d/'' not_slash u \<and>
    first_id ''drive.google.com/open?id='' not_amp u pre ID post \<longrightarrow>
      convertToDownloadUrl u = ''https://drive.google.com/uc?export=download&id='' @ ID) \<and>
   (\<not> has_shape ''drive.google.com/file/d/'' not_slash u \<and>
    \<not> has_shape ''drive.google.com/open?id='' not_amp u \<and>
    first_id ''docs.google.com/document/d/'' not_slash u pre ID post \<longrightarrow>
      convertToDownloadUrl u = ''https://docs.google.com/document/d/'' @ ID @ ''/export?format=docx'') \<and>
   (\<not> has_shape ''drive.google.com/file/d/'' not_slash u \<and>
    \<not> has_shape ''drive.google.com/open?id='' not_amp u \<and>
    \<not> has_shape ''docs.google.com/document/d/'' not_slash u \<and>
    first_id ''docs.google.com/spreadsheets/d/'' not_slash u pre ID post \<longrightarrow>
      convertToDownloadUrl u =
        ''https://docs.google.com/spreadsheets/d/'' @ ID @ ''/export?format=xlsx'') \<and>
   (\<not> has_shape ''drive.google.com/file/d/'' not_slash u \<and>
    \<not> has_shape ''drive.google.com/open?id='' not_amp u \<and>
    \<not> has_shape ''docs.google.com/document/d/'' not_slash u \<and>
    \<not> has_shape ''docs.google.com/spreadsheets/d/'' not_slash u \<and>
    first_id ''docs.google.com/presentation/d/'' not_slash u pre ID post \<longrightarrow>
      convertToDownloadUrl u = ''https://docs.google.com/presentation/d/'' @ ID @ ''/export/pptx'') \<and>
   (\<not> has_shape ''drive.google.com/file/d/'' not_slash u \<and>
    \<not> has_shape ''drive.google.com/open?id='' not_amp u \<and>
    \<not> has_shape ''docs.google.com/document/d/'' not_slash u \<and>
    \<not> has_shape ''docs.google.com/spreadsheets/d/'' not_slash u \<and>
    \<not> has_shape ''docs.google.com/presentation/d/'' not_slash u \<longrightarrow>
      convertToDownloadUrl u = u)"
  by (auto simp: convertToDownloadUrl_def no_shape_capture dest!: first_id_capture)


lemma example_file_url: "first_id ''drive.google.com/file/d/'' not_slash
    ''https://drive.google.com/file/d/ABC123/view'' ''https://'' ''ABC123'' ''/view''"
  by code_simp

lemma example_open_url:
  "\<not> has_shape ''drive.google.com/file/d/'' not_slash
       ''https://drive.google.com/open?id=ABC123&usp=sharing''"
  "first_id ''drive.google.com/open?id='' not_amp
       ''https://drive.google.com/open?id=ABC123&usp=sharing'' ''https://'' ''ABC123''
       ''&usp=sharing''"
  by code_simp+

lemma example_sheet_url:
  "\<not> has_shape ''drive.google.com/file/d/'' not_slash
       ''https://docs.google.com/spreadsheets/d/XYZ/edit''"
  "\<not> has_shape ''drive.google.com/open?id='' not_amp
       ''https://docs.google.com/spreadsheets/d/XYZ/edit''"
  "\<not> has_shape ''docs.google.com/document/d/'' not_slash
       ''https://docs.google.com/spreadsheets/d/XYZ/edit''"
  "first_id ''docs.google.com/spreadsheets/d/'' not_slash
       ''https://docs.google.com/spreadsheets/d/XYZ/edit'' ''https://'' ''XYZ'' ''/edit''"
  by code_simp+

lemma example_direct_url:
  "\<not> has_shape ''drive.google.com/file/d/'' not_slash ''https://example.org/files/paper.pdf''"
  "\<not> has_shape ''drive.google.com/open?id='' not_amp ''https://example.org/files/paper.pdf''"
  "\<not> has_shape ''docs.google.com/document/d/'' not_slash ''https://example.org/files/paper.pdf''"
  "\<not> has_shape ''docs.google.com/spreadsheets/d/'' not_slash ''https://example.org/files/paper.pdf''"
  "\<not> has_shape ''docs.google.com/presentation/d/'' not_slash ''https://example.org/files/paper.pdf''"
  by code_simp+

text \<open>
  A file-view link, an open link, the spreadsheet link of the specification and a direct link.
\<close>

theorem convertToDownloadUrl_cases_witness:
  "convertToDownloadUrl ''https://drive.google.com/file/d/ABC123/view'' =
     ''https://drive.google.com/uc?export=download&id=ABC123'' \<and>
   convertToDownloadUrl ''https://drive.google.com/open?id=ABC123&usp=sharing'' =
     ''https://drive.google.com/uc?export=download&id=ABC123'' \<and>
   convertToDownloadUrl ''https://docs.google.com/spreadsheets/d/XYZ/edit'' =
     ''https://docs.google.com/spreadsheets/d/XYZ/export?format=xlsx'' \<and>
   convertToDownloadUrl ''https://example.org/files/paper.pdf'' =
     ''https://example.org/files/paper.pdf''"
  using convertToDownloadUrl_cases [of "''https://drive.google.com/file/d/ABC123/view''" "''https://''" "''ABC123''"
      "''/view''"]
    convertToDownloadUrl_cases [of "''https://drive.google.com/open?id=ABC123&usp=sharing''" "''https://''"
      "''ABC123''" "''&usp=sharing''"]
    convertToDownloadUrl_cases [of "''https://docs.google.com/spreadsheets/d/XYZ/edit''" "''https://''" "''XYZ''"
      "''/edit''"]
    convertToDownloadUrl_cases [of "''https://example.org/files/paper.pdf''" "[]" "[]" "[]"]
    example_file_url example_open_url example_sheet_url example_direct_url
  by simp

subsection \<open>The extension taken from the URL\<close>

lemma urlExtension_cases:
  "urlExtension u =
     (if str_includes u ''docs.google.com/document'' then ''.docx''
      else if str_includes u ''docs.google.com/spreadsheets'' then ''.xlsx''
      else if str_includes u ''docs.google.com/presentation'' then ''.pptx''
      else [])"
  by (simp add: urlExtension_def)

lemma shape_document: "has_shape ''docs.google.com/document/d/'' cls u \<Longrightarrow>
    str_includes u ''docs.google.com/document''"
proof -
  assume "has_shape ''docs.google.com/document/d/'' cls u"
  then have "str_includes u (''docs.google.com/document'' @ ''/d/'')"
    using has_shape_includes by fastforce
  then show ?thesis by (rule str_includes_prefix)
qed

lemma shape_spreadsheets: "has_shape ''docs.google.com/spreadsheets/d/'' cls u \<Longrightarrow>
    str_includes u ''docs.google.com/spreadsheets''"
proof -
  assume "has_shape ''docs.google.com/spreadsheets/d/'' cls u"
  then have "str_includes u (''docs.google.com/spreadsheets'' @ ''/d/'')"
    using has_shape_includes by fastforce
  then show ?thesis by (rule str_includes_prefix)
qed

lemma shape_presentation: "has_shape ''docs.google.com/presentation/d/'' cls u \<Longrightarrow>
    str_includes u ''docs.google.com/presentation''"
proof -
  assume "has_shape ''docs.google.com/presentation/d/'' cls u"
  then have "str_includes u (''docs.google.com/presentation'' @ ''/d/'')"
    using has_shape_includes by fastforce
  then show ?thesis by (rule str_includes_prefix)
qed

text \<open>
  Claim C8, as the code has it: for a file name without recognized extension, the extension that
  \<open>sanitizeFilename\<close> appends is decided by substring tests on the url, the first that holds
  winning: \<open>.docx\<close> if the url contains \<open>docs.google.com/document\<close>, \<open>.xlsx\<close> if it
  contains \<open>docs.google.com/spreadsheets\<close>, \<open>.pptx\<close> if it contains
  \<open>docs.google.com/presentation\<close>, and nothing otherwise. So a url of the word-processor
  shape of the resolver gets \<open>.docx\<close>; a url of the spreadsheet shape gets \<open>.xlsx\<close> unless
  it contains \<open>docs.google.com/document\<close>; a url of the slide-deck shape gets \<open>.pptx\<close>
  unless it contains one of the two other substrings; and a url that contains none of the three
  substrings gets no extension.
\<close>

theorem sanitizeFilename_url_extension:
  "\<not> hasExtension f \<longrightarrow>
     sanitizeFilename f u =
       sanitizedName f @
         (if str_includes u ''docs.google.com/document'' then ''.docx''
          else if str_includes u ''docs.google.com/spreadsheets'' then ''.xlsx''
          else if str_includes u ''docs.google.com/presentation'' then ''.pptx''
          else []) \<and>
     (has_shape ''docs.google.com/document/d/'' not_slash u \<longrightarrow>
        sanitizeFilename f u = sanitizedName f @ ''.docx'') \<and>
     (has_shape ''docs.google.com/spreadsheets/d/'' not_slash u \<and>
      \<not> str_includes u ''docs.google.com/document'' \<longrightarrow>
        sanitizeFilename f u = sanitizedName f @ ''.xlsx'') \<and>
     (has_shape ''docs.google.com/presentation/d/'' not_slash u \<and>
      \<not> str_includes u ''docs.google.com/document'' \<and>
      \<not> str_includes u ''docs.google.com/spreadsheets'' \<longrightarrow>
        sanitizeFilename f u = sanitizedName f @ ''.pptx'') \<and>
     (\<not> str_includes u ''docs.google.com/document'' \<and>
      \<not> str_includes u ''docs.google.com/spreadsheets'' \<and>
      \<not> str_includes u ''docs.google.com/presentation'' \<longrightarrow>
        sanitizeFilename f u = sanitizedName f)"
  by (auto simp: sanitizeFilename_def urlExtension_cases
      dest: shape_document shape_spreadsheets shape_presentation)

lemma hasExtension_notes: "\<not> hasExtension ''notes''"
  by code_simp

lemma sanitizedName_notes: "sanitizedName ''notes'' = ''notes''"
  by code_simp

lemma example_document_url:
  "has_shape ''docs.google.com/document/d/'' not_slash ''https://docs.google.com/document/d/D1/edit''"
  by code_simp

text \<open>A name without extension and a word-processor link.\<close>

theorem sanitizeFilename_url_extension_witness:
  "\<not> hasExtension ''notes'' \<and>
   has_shape ''docs.google.com/document/d/'' not_slash
     ''https://docs.google.com/document/d/D1/edit'' \<and>
   sanitizeFilename ''notes'' ''https://docs.google.com/document/d/D1/edit'' = ''notes.docx''"
  using sanitizeFilename_url_extension [of "''notes''" "''https://docs.google.com/document/d/D1/edit''"]
    hasExtension_notes sanitizedName_notes example_document_url
  by simp

text \<open>
  Claim C8 as stated fails: the url \<open>https://docs.google.com/document/u/0/\<close> has none of the
  five shapes of the resolver, which returns it unchanged, and yet \<open>sanitizeFilename\<close> appends
  \<open>.docx\<close> to the name \<open>notes\<close>, which has no extension.
\<close>

theorem sanitizeFilename_url_extension_counterexample:
  "\<not> hasExtension ''notes'' \<and>
   \<not> has_shape ''drive.google.com/file/d/'' not_slash ''https://docs.google.com/document/u/0/'' \<and>
   \<not> has_shape ''drive.google.com/open?id='' not_amp ''https://docs.google.com/document/u/0/'' \<and>
   \<not> has_shape ''docs.google.com/document/d/'' not_slash ''https://docs.google.com/document/u/0/'' \<and>
   \<not> has_shape ''docs.google.com/spreadsheets/d/'' not_slash ''https://docs.google.com/document/u/0/'' \<and>
   \<not> has_shape ''docs.google.com/presentation/d/'' not_slash ''https://docs.google.com/document/u/0/'' \<and>
   convertToDownloadUrl ''https://docs.google.com/document/u/0/'' = ''https://docs.google.com/document/u/0/'' \<and>
   sanitizeFilename ''notes'' ''https://docs.google.com/document/u/0/'' = ''notes.docx''"
  by code_simp

subsection \<open>The download batch\<close>

lemma downloadFile_expected:
  "downloadFile dm m att folder =
     (let (resp, m') = dm m \<lparr>opt_url = convertToDownloadUrl (url att),
                              opt_filename = ''Classroom/'' @ folder @ ''/'' @
                                sanitizeFilename (filename att) (url att),
                              saveAs = False\<rparr>
      in (if call_succeeds resp then Inr (the (downloadId resp))
          else Inl (case lastError resp of Some msg \<Rightarrow> msg
                           | None \<Rightarrow> ''Download failed - no download ID returned''), m'))"
  by (auto simp: downloadFile_def call_succeeds_def Let_def split: prod.splits option.splits)

lemma download_loop_results:
  "fst (download_loop dm folder atts acc m) =
     acc @ map2 expected_result atts (manager_responses dm folder atts m)"
proof (induction atts arbitrary: acc m)
  case Nil
  then show ?case by simp
next
  case (Cons att atts)
  obtain resp m' where r: "dm m \<lparr>opt_url = convertToDownloadUrl (url att),
                              opt_filename = ''Classroom/'' @ folder @ ''/'' @
                                sanitizeFilename (filename att) (url att),
                              saveAs = False\<rparr> = (resp, m')"
    by (cases "dm m \<lparr>opt_url = convertToDownloadUrl (url att),
                              opt_filename = ''Classroom/'' @ folder @ ''/'' @
                                sanitizeFilename (filename att) (url att),
                              saveAs = False\<rparr>")
  show ?case
  proof (cases "call_succeeds resp")
    case True
    then obtain i where i: "downloadId resp = Some i" by (auto simp: call_succeeds_def)
    from True r i have "downloadFile dm m att folder = (Inr i, m')"
      by (simp add: downloadFile_expected)
    with True r i show ?thesis
      by (simp add: Cons.IH expected_result_def)
  next
    case False
    with r have "downloadFile dm m att folder =
       (Inl (case lastError resp of Some msg \<Rightarrow> msg
                           | None \<Rightarrow> ''Download failed - no download ID returned''), m')"
      by (simp add: downloadFile_expected)
    with False r show ?thesis
      by (simp add: Cons.IH expected_result_def)
  qed
qed

lemma length_manager_responses: "length (manager_responses dm folder atts m) = length atts"
  by (induction atts arbitrary: m) (auto split: prod.splits)

lemma res_url_expected: "res_url (expected_result att resp) = url att"
  by (simp add: expected_result_def)

lemma success_expected: "success (expected_result att resp) = call_succeeds resp"
  by (simp add: expected_result_def)

lemma map_res_url_expected:
  "length rs = length atts \<Longrightarrow> map res_url (map2 expected_result atts rs) = map url atts"
  by (induction atts rs rule: list_induct2') (simp_all add: res_url_expected)

text \<open>
  Claim C4: \<open>handleDownloadRequest\<close> returns one result per attachment, in the order of the
  attachments: the result at position \<open>i\<close> is the one expected for attachment \<open>i\<close> and the
  response of the download manager to call \<open>i\<close>, the manager being called once per attachment
  whatever the earlier responses were. That result carries the url of the attachment; it is
  \<open>{url, success: true, downloadId}\<close> when the call succeeds and
  \<open>{url, success: false, error}\<close> when the manager reports an error or returns no id.
\<close>

theorem handleDownloadRequest_results:
  "fst (handleDownloadRequest dm m now atts label) =
     map2 expected_result atts (manager_responses dm (sessionFolder label now) atts m) \<and>
   length (manager_responses dm (sessionFolder label now) atts m) = length atts \<and>
   length (fst (handleDownloadRequest dm m now atts label)) = length atts \<and>
   map res_url (fst (handleDownloadRequest dm m now atts label)) = map url atts \<and>
   (\<forall>i<length atts.
      success (fst (handleDownloadRequest dm m now atts label) ! i) =
        call_succeeds (manager_responses dm (sessionFolder label now) atts m ! i))"
proof -
  let ?rs = "manager_responses dm (sessionFolder label now) atts m"
  have a: "fst (handleDownloadRequest dm m now atts label) = map2 expected_result atts ?rs"
    by (simp add: handleDownloadRequest_def download_loop_results)
  have b: "length ?rs = length atts" by (rule length_manager_responses)
  have c: "map res_url (map2 expected_result atts ?rs) = map url atts"
    using b by (rule map_res_url_expected)
  have d: "\<forall>i<length atts. success (map2 expected_result atts ?rs ! i) = call_succeeds (?rs ! i)"
    using b by (simp add: success_expected)
  show ?thesis using a b c d by simp
qed

text \<open>
  A batch of three attachments whose second call fails: three results in the order of the
  attachments, the second failed, the first and the third succeeded.
\<close>

theorem handleDownloadRequest_results_witness:
  "fst (handleDownloadRequest second_call_fails 0
     \<lparr>fullYear = 2026, month = 10, date = 2, hours = 13, minutes = 30, seconds = 0\<rparr>
     [\<lparr>url = ''https://drive.google.com/file/d/A/view'', filename = ''a.pdf''\<rparr>,
      \<lparr>url = ''https://drive.google.com/file/d/B/view'', filename = ''b.pdf''\<rparr>,
      \<lparr>url = ''https://drive.google.com/file/d/C/view'', filename = ''c.pdf''\<rparr>]
     (Some ''Homework'')) =
   [\<lparr>res_url = ''https://drive.google.com/file/d/A/view'', success = True,
      res_downloadId = Some 100, error = None\<rparr>,
    \<lparr>res_url = ''https://drive.google.com/file/d/B/view'', success = False,
      res_downloadId = None, error = Some ''Network error''\<rparr>,
    \<lparr>res_url = ''https://drive.google.com/file/d/C/view'', success = True,
      res_downloadId = Some 102, error = None\<rparr>]"
  using handleDownloadRequest_results [of second_call_fails 0
     "\<lparr>fullYear = 2026, month = 10, date = 2, hours = 13, minutes = 30, seconds = 0\<rparr>"
     "[\<lparr>url = ''https://drive.google.com/file/d/A/view'', filename = ''a.pdf''\<rparr>,
      \<lparr>url = ''https://drive.google.com/file/d/B/view'', filename = ''b.pdf''\<rparr>,
      \<lparr>url = ''https://drive.google.com/file/d/C/view'', filename = ''c.pdf''\<rparr>]"
     "Some ''Homework''"]
  by (simp add: second_call_fails_def expected_result_def call_succeeds_def)

subsection \<open>The scan\<close>

lemma scan_step_cases:
  "scan_step (files, seen) link =
     (if href link \<noteq> [] \<and> href link \<notin> seen \<and> \<not> isNavigationLink (href link) \<and>
         hasValidExtension (extractFilename link)
      then (files @ [\<lparr>url = href link, filename = extractFilename link\<rparr>],
            insert (href link) seen)
      else (files, seen))"
  by (simp add: scan_step_def Let_def)

lemma scan_fold_invariant:
  assumes "seen = set (map url files)" "distinct (map url files)"
    "\<forall>r\<in>set files. hasValidExtension (filename r)"
  shows "snd (foldl scan_step (files, seen) links) =
           set (map url (fst (foldl scan_step (files, seen) links))) \<and>
         distinct (map url (fst (foldl scan_step (files, seen) links))) \<and>
         (\<forall>r\<in>set (fst (foldl scan_step (files, seen) links)). hasValidExtension (filename r))"
  using assms
proof (induction links arbitrary: files seen)
  case Nil
  then show ?case by simp
next
  case (Cons link links)
  show ?case
  proof (cases "href link \<noteq> [] \<and> href link \<notin> seen \<and> \<not> isNavigationLink (href link) \<and>
         hasValidExtension (extractFilename link)")
    case True
    let ?files = "files @ [\<lparr>url = href link, filename = extractFilename link\<rparr>]"
    let ?seen = "insert (href link) seen"
    from True have step: "scan_step (files, seen) link = (?files, ?seen)"
      by (simp add: scan_step_cases)
    have 1: "?seen = set (map url ?files)" using Cons.prems(1) by simp
    have 2: "distinct (map url ?files)" using Cons.prems(1,2) True by simp
    have 3: "\<forall>r\<in>set ?files. hasValidExtension (filename r)" using Cons.prems(3) True by simp
    from Cons.IH [OF 1 2 3] show ?thesis by (simp add: step)
  next
    case False
    then have step: "scan_step (files, seen) link = (files, seen)"
      by (simp add: scan_step_cases)
    from Cons.IH [OF Cons.prems] show ?thesis by (simp add: step)
  qed
qed

lemma scan_fold_keeps_seen:
  "u \<in> snd st \<Longrightarrow> u \<in> snd (foldl scan_step st links)"
proof (induction links arbitrary: st)
  case Nil
  then show ?case by simp
next
  case (Cons link links)
  obtain files seen where st: "st = (files, seen)" by (cases st)
  with Cons.prems have "u \<in> snd (scan_step st link)" by (simp add: scan_step_cases)
  then have "u \<in> snd (foldl scan_step (scan_step st link) links)" by (rule Cons.IH)
  then show ?case by simp
qed

lemma scan_fold_sees_accepted:
  assumes "a \<in> set links" "href a \<noteq> []" "\<not> isNavigationLink (href a)"
    "hasValidExtension (extractFilename a)"
  shows "href a \<in> snd (foldl scan_step st links)"
  using assms(1)
proof (induction links arbitrary: st)
  case Nil
  then show ?case by simp
next
  case (Cons link links)
  obtain files seen where st: "st = (files, seen)" by (cases st)
  show ?case
  proof (cases "a = link")
    case True
    with assms(2-4) st have "href a \<in> snd (scan_step st link)" by (simp add: scan_step_cases)
    then have "href a \<in> snd (foldl scan_step (scan_step st link) links)"
      by (rule scan_fold_keeps_seen)
    then show ?thesis by simp
  next
    case False
    with Cons.prems have "a \<in> set links" by simp
    then have "href a \<in> snd (foldl scan_step (scan_step st link) links)" by (rule Cons.IH)
    then show ?thesis by simp
  qed
qed

lemma scan_fold_provenance:
  assumes "\<forall>r\<in>set files. P r"
    "\<forall>a\<in>set links. P \<lparr>url = href a, filename = extractFilename a\<rparr>"
  shows "\<forall>r\<in>set (fst (foldl scan_step (files, seen) links)). P r"
  using assms
proof (induction links arbitrary: files seen)
  case Nil
  then show ?case by simp
next
  case (Cons link links)
  show ?case
  proof (cases "href link \<noteq> [] \<and> href link \<notin> seen \<and> \<not> isNavigationLink (href link) \<and>
         hasValidExtension (extractFilename link)")
    case True
    let ?files = "files @ [\<lparr>url = href link, filename = extractFilename link\<rparr>]"
    from True have step: "scan_step (files, seen) link = (?files, insert (href link) seen)"
      by (simp add: scan_step_cases)
    have 1: "\<forall>r\<in>set ?files. P r" using Cons.prems by simp
    have 2: "\<forall>a\<in>set links. P \<lparr>url = href a, filename = extractFilename a\<rparr>"
      using Cons.prems by simp
    from Cons.IH [OF 1 2] show ?thesis by (simp add: step)
  next
    case False
    then have step: "scan_step (files, seen) link = (files, seen)"
      by (simp add: scan_step_cases)
    have 2: "\<forall>a\<in>set links. P \<lparr>url = href a, filename = extractFilename a\<rparr>"
      using Cons.prems by simp
    from Cons.IH [OF Cons.prems(1) 2] show ?thesis by (simp add: step)
  qed
qed

lemma distinct_count_one:
  "distinct (map f xs) \<Longrightarrow> y \<in> set (map f xs) \<Longrightarrow> length (filter (\<lambda>x. f x = y) xs) = 1"
proof (induction xs)
  case Nil
  then show ?case by simp
next
  case (Cons x xs)
  show ?case
  proof (cases "f x = y")
    case True
    with Cons.prems(1) have "y \<notin> f ` set xs" by simp
    then have "\<forall>z\<in>set xs. f z \<noteq> y" by blast
    then have "filter (\<lambda>x. f x = y) xs = []" by (simp add: filter_empty_conv)
    with True show ?thesis by simp
  next
    case False
    with Cons show ?thesis by auto
  qed
qed

lemma scanForFiles_fold:
  "scanForFiles document = fst (foldl scan_step ([], {}) (filter selected document))"
  by (simp add: scanForFiles_def selected_def[abs_def])

lemma extractFilename_notes: "extractFilename notes_anchor = ''notes.pdf''"
  by (simp add: extractFilename_def notes_anchor_def trim_def first_line_def strip_class_def
      is_space_def is_line_break_def prefix_ci_def toLowerCase_def lower_char_def
      ext_alternatives_def usable_def)

lemma extractFilename_setup: "extractFilename setup_anchor = ''setup.exe''"
  by (simp add: extractFilename_def setup_anchor_def trim_def first_line_def strip_class_def
      is_space_def is_line_break_def prefix_ci_def toLowerCase_def lower_char_def
      ext_alternatives_def usable_def)

lemma hasValidExtension_notes: "hasValidExtension ''notes.pdf''"
  by code_simp

lemma hasValidExtension_setup: "\<not> hasValidExtension ''setup.exe''"
  by code_simp

lemma notes_anchor_facts:
  "selected notes_anchor" "href notes_anchor = ''https://drive.google.com/file/d/A/view''"
  "\<not> isNavigationLink (href notes_anchor)"
  by (simp_all add: selected_def notes_anchor_def isNavigationLink_def)

lemma setup_anchor_facts:
  "selected setup_anchor" "href setup_anchor = ''https://drive.google.com/file/d/B/view''"
  "\<not> isNavigationLink (href setup_anchor)"
  by (simp_all add: selected_def setup_anchor_def isNavigationLink_def)

lemma scanForFiles_notes_setup:
  "scanForFiles [notes_anchor, setup_anchor] =
     [\<lparr>url = ''https://drive.google.com/file/d/A/view'', filename = ''notes.pdf''\<rparr>]"
  using notes_anchor_facts setup_anchor_facts
  by (simp add: scanForFiles_fold scan_step_cases extractFilename_notes extractFilename_setup
      hasValidExtension_notes hasValidExtension_setup)

text \<open>
  Claim C5: the records of one scan have pairwise different urls. A url that some candidate
  anchor passing the navigation and extension filters points to has exactly one record, however
  many anchors point to it.
\<close>

theorem scanForFiles_distinct:
  "distinct (map url (scanForFiles document)) \<and>
   (\<forall>a\<in>set document.
      selected a \<and> href a \<noteq> [] \<and> \<not> isNavigationLink (href a) \<and>
      hasValidExtension (extractFilename a) \<longrightarrow>
      length (filter (\<lambda>r. url r = href a) (scanForFiles document)) = 1)"
proof -
  let ?links = "filter selected document"
  let ?st = "foldl scan_step ([], {}) ?links"
  have inv: "snd ?st = set (map url (fst ?st)) \<and> distinct (map url (fst ?st)) \<and>
             (\<forall>r\<in>set (fst ?st). hasValidExtension (filename r))"
    by (rule scan_fold_invariant) simp_all
  then have d: "distinct (map url (scanForFiles document))" by (simp add: scanForFiles_fold)
  have "length (filter (\<lambda>r. url r = href a) (scanForFiles document)) = 1"
    if a: "a \<in> set document" "selected a" "href a \<noteq> []" "\<not> isNavigationLink (href a)"
      "hasValidExtension (extractFilename a)" for a
  proof -
    from a(1,2) have "a \<in> set ?links" by simp
    then have "href a \<in> snd ?st" using a(3-5) by (rule scan_fold_sees_accepted)
    with inv have "href a \<in> set (map url (scanForFiles document))"
      by (simp add: scanForFiles_fold)
    with d show ?thesis by (rule distinct_count_one)
  qed
  with d show ?thesis by blast
qed

text \<open>A page with two anchors to the same PDF file: one record for that url.\<close>

theorem scanForFiles_distinct_witness:
  "distinct (map url (scanForFiles [notes_anchor, notes_anchor])) \<and>
   length (filter (\<lambda>r. url r = ''https://drive.google.com/file/d/A/view'')
     (scanForFiles [notes_anchor, notes_anchor])) = 1"
  using scanForFiles_distinct [of "[notes_anchor, notes_anchor]"] notes_anchor_facts
  by (simp add: extractFilename_notes hasValidExtension_notes)

text \<open>
  Claim C6: the file name of every record of a scan ends, after \<open>toLowerCase\<close>, with a dot
  and one of the extensions of the allow-list; every record is a candidate anchor with its
  extracted file name; and a candidate whose extracted file name does not end so (as one that
  ends in \<open>.exe\<close>) gives no record.
\<close>

theorem scanForFiles_valid_extensions:
  "(\<forall>r\<in>set (scanForFiles document).
      \<exists>ext\<in>set [''pptx'', ''ppt'', ''docx'', ''doc'', ''xlsx'', ''xls'', ''pdf'', ''txt'', ''zip'',
                 ''rar'', ''7z'', ''jpg'', ''jpeg'', ''png'', ''gif'', ''bmp'', ''mp4'', ''mp3'',
                 ''wav'', ''avi'', ''mov''].
        suffix (CHR ''.'' # ext) (toLowerCase (filename r))) \<and>
   (\<forall>r\<in>set (scanForFiles document).
      \<exists>a\<in>set document. selected a \<and> url r = href a \<and> filename r = extractFilename a) \<and>
   (\<forall>a\<in>set document. \<not> hasValidExtension (extractFilename a) \<longrightarrow>
      (\<forall>r\<in>set (scanForFiles document). filename r \<noteq> extractFilename a))"
proof -
  let ?links = "filter selected document"
  let ?st = "foldl scan_step ([], {}) ?links"
  have inv: "snd ?st = set (map url (fst ?st)) \<and> distinct (map url (fst ?st)) \<and>
             (\<forall>r\<in>set (fst ?st). hasValidExtension (filename r))"
    by (rule scan_fold_invariant) simp_all
  then have v: "\<forall>r\<in>set (scanForFiles document). hasValidExtension (filename r)"
    by (simp add: scanForFiles_fold)
  then have 1: "\<forall>r\<in>set (scanForFiles document).
      \<exists>ext\<in>set [''pptx'', ''ppt'', ''docx'', ''doc'', ''xlsx'', ''xls'', ''pdf'', ''txt'', ''zip'',
                 ''rar'', ''7z'', ''jpg'', ''jpeg'', ''png'', ''gif'', ''bmp'', ''mp4'', ''mp3'',
                 ''wav'', ''avi'', ''mov''].
        suffix (CHR ''.'' # ext) (toLowerCase (filename r))"
    unfolding hasValidExtension_def VALID_EXTENSIONS_def Let_def list_ex_iff by blast
  have "\<forall>r\<in>set (fst ?st).
      \<exists>a\<in>set document. selected a \<and> url r = href a \<and> filename r = extractFilename a"
    by (rule scan_fold_provenance) auto
  then have 2: "\<forall>r\<in>set (scanForFiles document).
      \<exists>a\<in>set document. selected a \<and> url r = href a \<and> filename r = extractFilename a"
    by (simp add: scanForFiles_fold)
  from v have 3: "\<forall>a\<in>set document. \<not> hasValidExtension (extractFilename a) \<longrightarrow>
      (\<forall>r\<in>set (scanForFiles document). filename r \<noteq> extractFilename a)"
    by metis
  from 1 2 3 show ?thesis by blast
qed

text \<open>
  A page with a PDF link and a link named \<open>setup.exe\<close>: the only record is the PDF, and no
  record has the name \<open>setup.exe\<close>.
\<close>

theorem scanForFiles_valid_extensions_witness:
  "\<not> hasValidExtension (extractFilename setup_anchor) \<and>
   scanForFiles [notes_anchor, setup_anchor] =
     [\<lparr>url = ''https://drive.google.com/file/d/A/view'', filename = ''notes.pdf''\<rparr>] \<and>
   list_all (\<lambda>r. filename r \<noteq> extractFilename setup_anchor)
     (scanForFiles [notes_anchor, setup_anchor]) \<and>
   list_all (\<lambda>r. hasValidExtension (filename r)) (scanForFiles [notes_anchor, setup_anchor])"
proof -
  note t = scanForFiles_valid_extensions [of "[notes_anchor, setup_anchor]"]
  have n: "\<not> hasValidExtension (extractFilename setup_anchor)"
    by (simp add: extractFilename_setup hasValidExtension_setup)
  with t have "\<forall>r\<in>set (scanForFiles [notes_anchor, setup_anchor]).
      filename r \<noteq> extractFilename setup_anchor"
    by simp
  then have a: "list_all (\<lambda>r. filename r \<noteq> extractFilename setup_anchor)
      (scanForFiles [notes_anchor, setup_anchor])"
    by (simp add: list_all_iff)
  from t have "\<forall>r\<in>set (scanForFiles [notes_anchor, setup_anchor]).
      hasValidExtension (filename r)"
    unfolding hasValidExtension_def VALID_EXTENSIONS_def Let_def list_ex_iff by blast
  then have b: "list_all (\<lambda>r. hasValidExtension (filename r))
      (scanForFiles [notes_anchor, setup_anchor])"
    by (simp add: list_all_iff)
  from n a b scanForFiles_notes_setup show ?thesis by blast
qed

subsection \<open>Applying a sanitizer twice\<close>

text \<open>Single-spaced strings are the fixed points of the whitespace collapse.\<close>

lemma collapse_ws_spaced: "spaced s \<Longrightarrow> collapse_ws s = s"
proof (induction s)
  case Nil
  then show ?case by simp
next
  case (Cons c cs)
  from Cons.prems have sp: "spaced cs" by simp
  show ?case
  proof (cases "is_space c")
    case True
    with Cons.prems have c: "c = CHR '' ''" and h: "case cs of [] \<Rightarrow> True | d # _ \<Rightarrow> \<not> is_space d"
      by simp_all
    from h have "dropWhile is_space cs = cs" by (cases cs) simp_all
    with True c sp Cons.IH show ?thesis by simp
  next
    case False
    with sp Cons.IH show ?thesis by simp
  qed
qed

lemma spaced_collapse_ws: "spaced (collapse_ws s)"
proof (induction s rule: collapse_ws.induct)
  case 1
  then show ?case by simp
next
  case (2 c cs)
  show ?case
  proof (cases "is_space c")
    case True
    let ?t = "dropWhile is_space cs"
    have "case collapse_ws ?t of [] \<Rightarrow> True | d # _ \<Rightarrow> \<not> is_space d"
    proof (cases ?t)
      case Nil
      show ?thesis unfolding Nil by simp
    next
      case (Cons x xs)
      then have "\<not> is_space x" using hd_dropWhile [of is_space cs] by simp
      with Cons show ?thesis by simp
    qed
    with True "2.IH"(1) show ?thesis by (simp add: is_space_def)
  next
    case False
    with "2.IH"(2) show ?thesis by simp
  qed
qed

lemma spaced_append: "spaced (a @ b) \<Longrightarrow> spaced a \<and> spaced b"
proof (induction a)
  case Nil
  then show ?case by simp
next
  case (Cons c a)
  then have ab: "spaced a \<and> spaced b" by simp
  from Cons.prems have "if is_space c then c = CHR '' '' \<and>
      (case a @ b of [] \<Rightarrow> True | d # _ \<Rightarrow> \<not> is_space d) else True" by simp
  then have "if is_space c then c = CHR '' '' \<and>
      (case a of [] \<Rightarrow> True | d # _ \<Rightarrow> \<not> is_space d) else True"
    by (cases a) (simp_all split: if_splits)
  with ab show ?case by simp
qed

lemma spaced_take: "spaced s \<Longrightarrow> spaced (take n s)"
  using spaced_append [of "take n s" "drop n s"] by simp

lemma spaced_drop: "spaced s \<Longrightarrow> spaced (drop n s)"
  using spaced_append [of "take n s" "drop n s"] by simp

lemma set_collapse_ws: "set (collapse_ws s) \<subseteq> insert (CHR '' '') (set s)"
proof (induction s rule: collapse_ws.induct)
  case 1
  then show ?case by simp
next
  case (2 c cs)
  show ?case
  proof (cases "is_space c")
    case True
    have "set (dropWhile is_space cs) \<subseteq> set cs" by (auto dest: set_dropWhileD)
    with True "2.IH"(1) show ?thesis by auto
  next
    case False
    with "2.IH"(2) show ?thesis by auto
  qed
qed

text \<open>Stripping a class keeps a middle part that neither starts nor ends in the class.\<close>

lemma strip_class_split:
  "dropWhile cls s = strip_class cls s @ rev (takeWhile cls (rev (dropWhile cls s)))"
proof -
  let ?t = "dropWhile cls s"
  have "rev (dropWhile cls (rev ?t)) @ rev (takeWhile cls (rev ?t)) =
      rev (takeWhile cls (rev ?t) @ dropWhile cls (rev ?t))"
    by (simp only: rev_append)
  also have "\<dots> = rev (rev ?t)" by (simp only: takeWhile_dropWhile_id)
  also have "\<dots> = ?t" by (simp only: rev_rev_ident)
  finally show ?thesis by (simp only: strip_class_def)
qed

lemma strip_class_split3:
  "s = takeWhile cls s @ strip_class cls s @ rev (takeWhile cls (rev (dropWhile cls s)))"
proof -
  have "s = takeWhile cls s @ dropWhile cls s" by simp
  with strip_class_split [of cls s] show ?thesis by metis
qed

lemma hd_strip_class:
  assumes "strip_class cls s \<noteq> []"
  shows "\<not> cls (hd (strip_class cls s))"
proof -
  let ?t = "dropWhile cls s"
  have t: "?t \<noteq> []"
  proof
    assume "?t = []"
    then have "strip_class cls s = []" by (simp only: strip_class_def rev.simps dropWhile.simps)
    with assms show False by simp
  qed
  then have "\<not> cls (hd ?t)" by (rule hd_dropWhile)
  moreover from strip_class_split [of cls s] assms have "hd ?t = hd (strip_class cls s)"
    by (metis hd_append2)
  ultimately show ?thesis by simp
qed

lemma last_strip_class:
  assumes "strip_class cls s \<noteq> []"
  shows "\<not> cls (last (strip_class cls s))"
proof -
  let ?u = "dropWhile cls (rev (dropWhile cls s))"
  from assms have u: "?u \<noteq> []" by (simp add: strip_class_def)
  then have "\<not> cls (hd ?u)" by (rule hd_dropWhile)
  moreover from u have "last (rev ?u) = hd ?u" by (simp add: last_rev)
  ultimately show ?thesis by (simp add: strip_class_def)
qed

lemma spaced_strip_class: "spaced s \<Longrightarrow> spaced (strip_class cls s)"
proof -
  assume "spaced s"
  then have "spaced (takeWhile cls s @ strip_class cls s @
      rev (takeWhile cls (rev (dropWhile cls s))))"
    using strip_class_split3 [of s cls] by simp
  then have "spaced (strip_class cls s @ rev (takeWhile cls (rev (dropWhile cls s))))"
    using spaced_append by blast
  then show ?thesis using spaced_append by blast
qed

lemma set_strip_class: "set (strip_class cls s) \<subseteq> set s"
proof -
  have "set s = set (takeWhile cls s @ strip_class cls s @
      rev (takeWhile cls (rev (dropWhile cls s))))"
    using strip_class_split3 [of s cls] by simp
  then show ?thesis by auto
qed

lemma dropWhile_id_iff:
  assumes "xs \<noteq> []"
  shows "dropWhile P xs = xs \<longleftrightarrow> \<not> P (hd xs)"
proof (cases xs)
  case Nil
  with assms show ?thesis by simp
next
  case (Cons a list)
  have "dropWhile P list \<noteq> a # list"
  proof
    assume "dropWhile P list = a # list"
    then have "length (dropWhile P list) = Suc (length list)" by simp
    moreover have "length (dropWhile P list) \<le> length list" by (rule length_dropWhile_le)
    ultimately show False by simp
  qed
  with Cons show ?thesis by simp
qed

text \<open>
  On a tidy name the replacement and the collapse change nothing, and the strip removes the
  trailing run of the class only.
\<close>

lemma resanitize:
  assumes "tidy cls c"
  shows "strip_class cls (collapse_ws (replace_class is_illegal r c)) = rev (dropWhile cls (rev c))"
proof -
  from assms have ne: "c \<noteq> []" and il: "\<forall>x\<in>set c. \<not> is_illegal x" and sp: "spaced c"
    and hd: "\<not> cls (hd c)"
    by (simp_all add: tidy_def list_all_iff)
  from il have 1: "replace_class is_illegal r c = c"
    by (simp add: replace_class_def map_idI)
  from sp have 2: "collapse_ws c = c" by (rule collapse_ws_spaced)
  from ne hd have 3: "dropWhile cls c = c" by (simp add: dropWhile_id_iff)
  show ?thesis by (simp only: 1 2 3 strip_class_def)
qed

lemma rstrip_nonempty:
  assumes "tidy cls c"
  shows "rev (dropWhile cls (rev c)) \<noteq> []"
proof -
  from assms have "c \<noteq> []" "\<not> cls (hd c)" by (simp_all add: tidy_def)
  then have "\<exists>x\<in>set (rev c). \<not> cls x" by (cases c) auto
  then have "dropWhile cls (rev c) \<noteq> []" by (simp add: dropWhile_eq_Nil_conv)
  then show ?thesis by simp
qed

lemma rstrip_id_iff:
  assumes "c \<noteq> []"
  shows "rev (dropWhile cls (rev c)) = c \<longleftrightarrow> \<not> cls (last c)"
proof -
  from assms have r: "rev c \<noteq> []" by simp
  have "rev (dropWhile cls (rev c)) = c \<longleftrightarrow> dropWhile cls (rev c) = rev c"
    by (metis rev_rev_ident)
  also have "\<dots> \<longleftrightarrow> \<not> cls (hd (rev c))" using r by (rule dropWhile_id_iff)
  also have "hd (rev c) = last c" using assms by (simp add: hd_rev)
  finally show ?thesis .
qed

lemma length_rstrip: "length (rev (dropWhile cls (rev c))) \<le> length c"
  using length_dropWhile_le [of cls "rev c"] by simp

text \<open>Every non-empty result of the sanitizing chain is tidy.\<close>

lemma tidy_result:
  assumes r: "\<not> is_illegal r" and t: "t = take n (strip_class cls (collapse_ws (replace_class is_illegal r s)))"
    and ne: "t \<noteq> []"
  shows "tidy cls t"
proof -
  let ?a = "replace_class is_illegal r s"
  let ?b = "collapse_ws ?a"
  let ?c = "strip_class cls ?b"
  have a: "\<forall>x\<in>set ?a. \<not> is_illegal x" using r by (auto simp: replace_class_def)
  have "\<not> is_illegal (CHR '' '')" by (simp add: is_illegal_def)
  with a set_collapse_ws [of ?a] have b: "\<forall>x\<in>set ?b. \<not> is_illegal x" by auto
  with set_strip_class [of cls ?b] have c: "\<forall>x\<in>set ?c. \<not> is_illegal x" by auto
  have "set t \<subseteq> set ?c" unfolding t by (rule set_take_subset)
  with c have 1: "list_all (\<lambda>c. \<not> is_illegal c) t" by (auto simp: list_all_iff)
  have 2: "spaced t" unfolding t by (intro spaced_take spaced_strip_class spaced_collapse_ws)
  from ne t have cne: "?c \<noteq> []" by auto
  from ne t have "hd t = hd ?c" by (cases n) (simp_all add: hd_take)
  with hd_strip_class [OF cne] have 3: "\<not> cls (hd t)" by simp
  from ne 1 2 3 show ?thesis by (simp add: tidy_def)
qed

lemma tidy_default_folder: "tidy is_space ''Classroom_Download''"
  by (simp add: tidy_def is_illegal_def is_space_def)

lemma tidy_default_file: "tidy is_trimmable ''unnamed_file''"
  by (simp add: tidy_def is_illegal_def is_space_def is_trimmable_def)

lemma sanitizeFolderName_tidy:
  "tidy is_space (sanitizeFolderName s) \<and> length (sanitizeFolderName s) \<le> 100"
proof -
  let ?t = "take 100 (trim (collapse_ws (replace_class is_illegal (CHR '' '') s)))"
  have il: "\<not> is_illegal (CHR '' '')" by (simp add: is_illegal_def)
  show ?thesis
  proof (cases "s = [] \<or> ?t = []")
    case True
    then have "sanitizeFolderName s = ''Classroom_Download''"
      by (auto simp: sanitizeFolderName_def or_default_def)
    with tidy_default_folder show ?thesis by simp
  next
    case False
    then have eq: "sanitizeFolderName s = ?t" by (simp add: sanitizeFolderName_def or_default_def)
    from False have "tidy is_space ?t"
      by (intro tidy_result [OF il, where s = s and n = 100]) (simp_all add: trim_def)
    with eq show ?thesis by simp
  qed
qed

lemma sanitizeFolderName_again:
  assumes "tidy is_space c" "length c \<le> 100"
  shows "sanitizeFolderName c = rev (dropWhile is_space (rev c))"
proof -
  let ?u = "rev (dropWhile is_space (rev c))"
  from assms(1) have ne: "c \<noteq> []" by (simp add: tidy_def)
  have 1: "trim (collapse_ws (replace_class is_illegal (CHR '' '') c)) = ?u"
    unfolding trim_def using assms(1) by (rule resanitize)
  have "length ?u \<le> 100" using length_rstrip [of is_space c] assms(2) by simp
  then have 2: "take 100 ?u = ?u" by simp
  have 3: "?u \<noteq> []" using assms(1) by (rule rstrip_nonempty)
  from ne 3 show ?thesis by (simp only: sanitizeFolderName_def 1 2 or_default_def if_False)
qed

lemma sanitizeFolderName_twice_iff:
  "sanitizeFolderName (sanitizeFolderName s) = sanitizeFolderName s \<longleftrightarrow>
     \<not> is_space (last (sanitizeFolderName s))"
proof -
  let ?r = "sanitizeFolderName s"
  from sanitizeFolderName_tidy [of s] have t: "tidy is_space ?r" and l: "length ?r \<le> 100"
    by simp_all
  from t have ne: "?r \<noteq> []" by (simp add: tidy_def)
  from t l have "sanitizeFolderName ?r = rev (dropWhile is_space (rev ?r))"
    by (rule sanitizeFolderName_again)
  with rstrip_id_iff [OF ne, of is_space] show ?thesis by simp
qed

lemma sanitizedName_tidy:
  "tidy is_trimmable (sanitizedName n) \<and> length (sanitizedName n) \<le> 200"
proof -
  let ?t = "take 200 (strip_class is_trimmable (collapse_ws (replace_class is_illegal (CHR ''_'') n)))"
  have il: "\<not> is_illegal (CHR ''_'')" by (simp add: is_illegal_def)
  show ?thesis
  proof (cases "?t = []")
    case True
    then have "sanitizedName n = ''unnamed_file''"
      by (simp add: sanitizedName_def or_default_def)
    with tidy_default_file show ?thesis by simp
  next
    case False
    then have eq: "sanitizedName n = ?t" by (simp add: sanitizedName_def or_default_def)
    from False have "tidy is_trimmable ?t"
      by (intro tidy_result [OF il, where s = n and n = 200]) simp_all
    with eq show ?thesis by simp
  qed
qed

lemma sanitizedName_again:
  assumes "tidy is_trimmable c" "length c \<le> 200"
  shows "sanitizedName c = rev (dropWhile is_trimmable (rev c))"
proof -
  let ?u = "rev (dropWhile is_trimmable (rev c))"
  have 1: "strip_class is_trimmable (collapse_ws (replace_class is_illegal (CHR ''_'') c)) = ?u"
    using assms(1) by (rule resanitize)
  have "length ?u \<le> 200" using length_rstrip [of is_trimmable c] assms(2) by simp
  then have 2: "take 200 ?u = ?u" by simp
  have 3: "?u \<noteq> []" using assms(1) by (rule rstrip_nonempty)
  from 3 show ?thesis by (simp only: sanitizedName_def 1 2 or_default_def if_False)
qed

lemma sanitizedName_fix_iff:
  assumes "tidy is_trimmable c" "length c \<le> 200"
  shows "sanitizedName c = c \<longleftrightarrow> \<not> is_trimmable (last c)"
proof -
  from assms(1) have ne: "c \<noteq> []" by (simp add: tidy_def)
  from assms have "sanitizedName c = rev (dropWhile is_trimmable (rev c))"
    by (rule sanitizedName_again)
  with rstrip_id_iff [OF ne, of is_trimmable] show ?thesis by simp
qed

text \<open>File names with a recognized extension are a name part followed by a dot and two to five
  alphanumeric characters.\<close>

lemma not_alnum_dot: "\<not> is_alnum (CHR ''.'')"
  by (simp add: is_alnum_def)

lemma rev_split_ext:
  assumes "list_all is_alnum a"
  shows "takeWhile is_alnum (rev (c @ CHR ''.'' # a)) = rev a"
    and "dropWhile is_alnum (rev (c @ CHR ''.'' # a)) = CHR ''.'' # rev c"
proof -
  have r: "rev (c @ CHR ''.'' # a) = rev a @ CHR ''.'' # rev c" by simp
  from assms have al: "\<forall>x\<in>set (rev a). is_alnum x" by (simp add: list_all_iff)
  from al have "takeWhile is_alnum (rev a @ CHR ''.'' # rev c) =
      rev a @ takeWhile is_alnum (CHR ''.'' # rev c)"
    by (intro takeWhile_append2) blast
  then show "takeWhile is_alnum (rev (c @ CHR ''.'' # a)) = rev a"
    unfolding r by (simp add: not_alnum_dot)
  from al have "dropWhile is_alnum (rev a @ CHR ''.'' # rev c) =
      dropWhile is_alnum (CHR ''.'' # rev c)"
    by (intro dropWhile_append2) blast
  then show "dropWhile is_alnum (rev (c @ CHR ''.'' # a)) = CHR ''.'' # rev c"
    unfolding r by (simp add: not_alnum_dot)
qed

lemma ext_match_append:
  assumes "a \<noteq> []" "list_all is_alnum a"
  shows "ext_match (c @ CHR ''.'' # a) = Some (CHR ''.'' # a)"
  using assms(1) by (simp add: ext_match_def rev_split_ext [OF assms(2)] del: rev_append)

lemma hasExtension_append:
  assumes "list_all is_alnum a"
  shows "hasExtension (c @ CHR ''.'' # a) \<longleftrightarrow> 2 \<le> length a \<and> length a \<le> 5"
  by (simp add: hasExtension_def rev_split_ext [OF assms] del: rev_append)

lemma hasExtension_split:
  assumes "hasExtension f"
  shows "\<exists>n a. f = n @ CHR ''.'' # a \<and> list_all is_alnum a \<and> 2 \<le> length a \<and> length a \<le> 5"
proof -
  let ?e = "takeWhile is_alnum (rev f)" and ?r = "dropWhile is_alnum (rev f)"
  from assms have len: "2 \<le> length ?e" "length ?e \<le> 5" and r: "?r \<noteq> []" "hd ?r = CHR ''.''"
    by (simp_all add: hasExtension_def Let_def)
  from r obtain r' where r': "?r = CHR ''.'' # r'" by (cases ?r) auto
  have "rev f = ?e @ ?r" by simp
  then have "rev (rev f) = rev (?e @ ?r)" by (rule arg_cong)
  then have f: "f = rev r' @ CHR ''.'' # rev ?e" by (simp add: r')
  have "\<forall>x\<in>set ?e. is_alnum x" by (auto dest: set_takeWhileD)
  then have "list_all is_alnum (rev ?e)" by (simp add: list_all_iff)
  with f len show ?thesis by (intro exI [of _ "rev r'"] exI [of _ "rev ?e"]) simp
qed

lemma name_part_append:
  assumes "list_all is_alnum a" "2 \<le> length a" "length a \<le> 5"
  shows "name_part (c @ CHR ''.'' # a) = c"
proof -
  from assms have h: "hasExtension (c @ CHR ''.'' # a)" by (simp add: hasExtension_append)
  from assms have "a \<noteq> []" by auto
  then have e: "ext_match (c @ CHR ''.'' # a) = Some (CHR ''.'' # a)"
    using assms(1) by (rule ext_match_append)
  show ?thesis by (simp add: name_part_def h e)
qed

lemma name_part_plain: "\<not> hasExtension f \<Longrightarrow> name_part f = f"
  by (simp add: name_part_def)

lemma sanitizeFilename_with_ext:
  assumes "list_all is_alnum a" "2 \<le> length a" "length a \<le> 5"
  shows "sanitizeFilename (c @ CHR ''.'' # a) u = sanitizedName c @ CHR ''.'' # a"
proof -
  from assms have h: "hasExtension (c @ CHR ''.'' # a)" by (simp add: hasExtension_append)
  from assms have "a \<noteq> []" by auto
  then have e: "ext_match (c @ CHR ''.'' # a) = Some (CHR ''.'' # a)"
    using assms(1) by (rule ext_match_append)
  show ?thesis by (simp add: sanitizeFilename_def h e)
qed

lemma sanitizeFilename_without_ext:
  "\<not> hasExtension f \<Longrightarrow> sanitizeFilename f u = sanitizedName f @ urlExtension u"
  by (simp add: sanitizeFilename_def)

lemma urlExtension_values:
  "urlExtension u = [] \<or>
   (\<exists>a. urlExtension u = CHR ''.'' # a \<and> list_all is_alnum a \<and> 2 \<le> length a \<and> length a \<le> 5)"
  by (simp add: urlExtension_def is_alnum_def)

lemma tidy_prefix:
  assumes "tidy cls (n @ e)" "n \<noteq> []"
  shows "tidy cls n"
proof -
  from assms(1) have "spaced (n @ e)" by (simp add: tidy_def)
  then have "spaced n" using spaced_append by blast
  with assms show ?thesis by (simp add: tidy_def)
qed

lemma hasExtension_iff:
  "hasExtension f \<longleftrightarrow>
     (\<exists>n a. f = n @ CHR ''.'' # a \<and> list_all is_alnum a \<and> 2 \<le> length a \<and> length a \<le> 5)"
  using hasExtension_split hasExtension_append by blast

text \<open>
  A sanitized file name splits into a tidy name part of at most 200 characters and a rest; the
  second application sanitizes that name part again and keeps the rest.
\<close>

lemma sanitizeFilename_shape:
  "\<exists>n e. sanitizeFilename f u = n @ e \<and> name_part (sanitizeFilename f u) = n \<and>
         tidy is_trimmable n \<and> length n \<le> 200 \<and>
         sanitizeFilename (sanitizeFilename f u) u = sanitizedName n @ e"
proof -
  have ext_case: ?thesis
    if r: "sanitizeFilename f u = sanitizedName x @ CHR ''.'' # a"
      and a: "list_all is_alnum a" "2 \<le> length a" "length a \<le> 5" for x a
  proof -
    let ?c = "sanitizedName x"
    from a have 1: "name_part (?c @ CHR ''.'' # a) = ?c" by (rule name_part_append)
    from a have 2: "sanitizeFilename (?c @ CHR ''.'' # a) u = sanitizedName ?c @ CHR ''.'' # a"
      by (rule sanitizeFilename_with_ext)
    from sanitizedName_tidy [of x] have 3: "tidy is_trimmable ?c" "length ?c \<le> 200" by simp_all
    from r 1 2 3 show ?thesis by (intro exI [of _ ?c] exI [of _ "CHR ''.'' # a"]) simp
  qed
  show ?thesis
  proof (cases "hasExtension f")
    case True
    then obtain n0 a where f: "f = n0 @ CHR ''.'' # a" and a: "list_all is_alnum a"
      "2 \<le> length a" "length a \<le> 5"
      using hasExtension_split by blast
    from a have "sanitizeFilename (n0 @ CHR ''.'' # a) u = sanitizedName n0 @ CHR ''.'' # a"
      by (rule sanitizeFilename_with_ext)
    with f have "sanitizeFilename f u = sanitizedName n0 @ CHR ''.'' # a" by simp
    then show ?thesis using a by (rule ext_case)
  next
    case False
    then have r: "sanitizeFilename f u = sanitizedName f @ urlExtension u"
      by (rule sanitizeFilename_without_ext)
    from urlExtension_values [of u] show ?thesis
    proof
      assume "\<exists>a. urlExtension u = CHR ''.'' # a \<and> list_all is_alnum a \<and> 2 \<le> length a \<and>
          length a \<le> 5"
      then obtain a where e: "urlExtension u = CHR ''.'' # a" and a: "list_all is_alnum a"
        "2 \<le> length a" "length a \<le> 5" by blast
      from r e have "sanitizeFilename f u = sanitizedName f @ CHR ''.'' # a" by simp
      then show ?thesis using a by (rule ext_case)
    next
      assume e: "urlExtension u = []"
      let ?c = "sanitizedName f"
      from r e have rc: "sanitizeFilename f u = ?c" by simp
      from sanitizedName_tidy [of f] have t: "tidy is_trimmable ?c" and l: "length ?c \<le> 200"
        by simp_all
      show ?thesis
      proof (cases "hasExtension ?c")
        case True
        then obtain n' a' where c: "?c = n' @ CHR ''.'' # a'" and a': "list_all is_alnum a'"
          "2 \<le> length a'" "length a' \<le> 5"
          using hasExtension_split by blast
        have ne: "n' \<noteq> []"
        proof
          assume "n' = []"
          with c have "hd ?c = CHR ''.''" by simp
          with t show False by (simp add: tidy_def is_trimmable_def)
        qed
        from t c have "tidy is_trimmable (n' @ CHR ''.'' # a')" by simp
        then have 1: "tidy is_trimmable n'" using ne by (rule tidy_prefix)
        from l c have "length (n' @ CHR ''.'' # a') \<le> 200" by simp
        then have 2: "length n' \<le> 200" by simp
        from a' have "name_part (n' @ CHR ''.'' # a') = n'" by (rule name_part_append)
        with c have 3: "name_part ?c = n'" by simp
        from a' have "sanitizeFilename (n' @ CHR ''.'' # a') u = sanitizedName n' @ CHR ''.'' # a'"
          by (rule sanitizeFilename_with_ext)
        with c have 4: "sanitizeFilename ?c u = sanitizedName n' @ CHR ''.'' # a'" by simp
        from c 1 2 3 4 show ?thesis
          unfolding rc by (intro exI [of _ n'] exI [of _ "CHR ''.'' # a'"]) simp
      next
        case False
        then have 3: "name_part ?c = ?c" by (rule name_part_plain)
        from False have "sanitizeFilename ?c u = sanitizedName ?c @ urlExtension u"
          by (rule sanitizeFilename_without_ext)
        with e have 4: "sanitizeFilename ?c u = sanitizedName ?c @ []" by simp
        from t l 3 4 show ?thesis
          unfolding rc by (intro exI [of _ ?c] exI [of _ "[]"]) simp
      qed
    qed
  qed
qed

lemma sanitizeFilename_twice_iff:
  "sanitizeFilename (sanitizeFilename f u) u = sanitizeFilename f u \<longleftrightarrow>
     \<not> is_trimmable (last (name_part (sanitizeFilename f u)))"
proof -
  from sanitizeFilename_shape [of f u] obtain n e where
    r: "sanitizeFilename f u = n @ e" and np: "name_part (sanitizeFilename f u) = n" and
    t: "tidy is_trimmable n" and l: "length n \<le> 200" and
    again: "sanitizeFilename (sanitizeFilename f u) u = sanitizedName n @ e"
    by blast
  have "sanitizeFilename (sanitizeFilename f u) u = sanitizeFilename f u \<longleftrightarrow>
      sanitizedName n @ e = sanitizeFilename f u" by (simp only: again)
  also have "\<dots> \<longleftrightarrow> sanitizedName n @ e = n @ e" by (simp only: r)
  also have "\<dots> \<longleftrightarrow> sanitizedName n = n" by simp
  also have "\<dots> \<longleftrightarrow> \<not> is_trimmable (last n)" using t l by (rule sanitizedName_fix_iff)
  also have "\<dots> \<longleftrightarrow> \<not> is_trimmable (last (name_part (sanitizeFilename f u)))"
    by (simp only: np)
  finally show ?thesis .
qed

lemma last_sanitizedName:
  assumes "length (strip_class is_trimmable (collapse_ws (replace_class is_illegal (CHR ''_'') n)))
    \<le> 200"
  shows "\<not> is_trimmable (last (sanitizedName n))"
proof -
  let ?st = "strip_class is_trimmable (collapse_ws (replace_class is_illegal (CHR ''_'') n))"
  from assms have tk: "take 200 ?st = ?st" by simp
  show ?thesis
  proof (cases "?st = []")
    case True
    then have "sanitizedName n = ''unnamed_file''"
      by (simp add: sanitizedName_def or_default_def)
    then show ?thesis by (simp add: is_trimmable_def is_space_def)
  next
    case False
    then have "sanitizedName n = ?st" by (simp add: sanitizedName_def or_default_def tk)
    with last_strip_class [OF False] show ?thesis by simp
  qed
qed

lemma last_sanitizeFolderName:
  assumes "length (trim (collapse_ws (replace_class is_illegal (CHR '' '') s))) \<le> 100"
  shows "\<not> is_space (last (sanitizeFolderName s))"
proof -
  let ?st = "trim (collapse_ws (replace_class is_illegal (CHR '' '') s))"
  from assms have tk: "take 100 ?st = ?st" by simp
  show ?thesis
  proof (cases "s = [] \<or> ?st = []")
    case True
    then have "sanitizeFolderName s = ''Classroom_Download''"
      by (auto simp: sanitizeFolderName_def or_default_def)
    then show ?thesis by (simp add: is_space_def)
  next
    case False
    then have eq: "sanitizeFolderName s = ?st"
      by (simp add: sanitizeFolderName_def or_default_def tk)
    from False have "strip_class is_space (collapse_ws (replace_class is_illegal (CHR '' '') s))
        \<noteq> []" by (simp add: trim_def)
    then have "\<not> is_space (last (strip_class is_space
        (collapse_ws (replace_class is_illegal (CHR '' '') s))))" by (rule last_strip_class)
    with eq show ?thesis by (simp add: trim_def)
  qed
qed

lemma name_part_result:
  assumes "hasExtension f \<or> urlExtension u \<noteq> []"
  shows "name_part (sanitizeFilename f u) = sanitizedName (name_part f)"
proof (cases "hasExtension f")
  case True
  then obtain n0 a where f: "f = n0 @ CHR ''.'' # a" and a: "list_all is_alnum a"
    "2 \<le> length a" "length a \<le> 5"
    using hasExtension_split by blast
  from a have 1: "sanitizeFilename (n0 @ CHR ''.'' # a) u = sanitizedName n0 @ CHR ''.'' # a"
    by (rule sanitizeFilename_with_ext)
  from a have 2: "name_part (n0 @ CHR ''.'' # a) = n0" by (rule name_part_append)
  from a have 3: "name_part (sanitizedName n0 @ CHR ''.'' # a) = sanitizedName n0"
    by (rule name_part_append)
  show ?thesis by (simp only: f 1 2 3)
next
  case False
  with assms have "urlExtension u \<noteq> []" by simp
  with urlExtension_values [of u] obtain a where e: "urlExtension u = CHR ''.'' # a" and
    a: "list_all is_alnum a" "2 \<le> length a" "length a \<le> 5" by blast
  from False have 1: "sanitizeFilename f u = sanitizedName f @ CHR ''.'' # a"
    by (simp add: sanitizeFilename_without_ext e)
  from False have 2: "name_part f = f" by (rule name_part_plain)
  from a have 3: "name_part (sanitizedName f @ CHR ''.'' # a) = sanitizedName f"
    by (rule name_part_append)
  show ?thesis by (simp only: 1 2 3)
qed

lemma folder_homework_short:
  "length (trim (collapse_ws (replace_class is_illegal (CHR '' '') ''Homework #1: A/B''))) \<le> 100"
  by code_simp

lemma name_my_file_short:
  "length (strip_class is_trimmable
     (collapse_ws (replace_class is_illegal (CHR ''_'') (name_part ''My File?.pdf'')))) \<le> 200"
  by code_simp

lemma sanitizeFilename_trailing_space: "sanitizeFilename ''a .pdf '' [] = ''a .pdf''"
  by code_simp

lemma sanitizeFilename_space_before_ext: "sanitizeFilename ''a .pdf'' [] = ''a.pdf''"
  by code_simp

lemma sanitizeFolderName_long:
  "sanitizeFolderName (replicate 99 (CHR ''a'') @ '' b'') = replicate 99 (CHR ''a'') @ '' ''"
  by code_simp

lemma sanitizeFolderName_long_again:
  "sanitizeFolderName (replicate 99 (CHR ''a'') @ '' '') = replicate 99 (CHR ''a'')"
  by code_simp

text \<open>
  Claim C3, as the code has it. Applying \<open>sanitizeFolderName\<close> twice gives the same as applying
  it once exactly when the sanitized name does not end in a whitespace character, and so
  whenever the cleaned label has at most 100 characters (the truncation cuts nothing). Applying
  \<open>sanitizeFilename\<close> twice, with the same url, gives the same as applying it once exactly when
  the name part of the sanitized file name (the name without its recognized extension) does not
  end in whitespace, a dot or an underscore, and so whenever the file name has a recognized
  extension, or the url gives one, and the cleaned name part has at most 200 characters.
\<close>

theorem sanitizers_twice:
  "(sanitizeFolderName (sanitizeFolderName s) = sanitizeFolderName s \<longleftrightarrow>
      \<not> is_space (last (sanitizeFolderName s))) \<and>
   (length (trim (collapse_ws (replace_class is_illegal (CHR '' '') s))) \<le> 100 \<longrightarrow>
      sanitizeFolderName (sanitizeFolderName s) = sanitizeFolderName s) \<and>
   (sanitizeFilename (sanitizeFilename f u) u = sanitizeFilename f u \<longleftrightarrow>
      \<not> is_trimmable (last (name_part (sanitizeFilename f u)))) \<and>
   ((hasExtension f \<or> urlExtension u \<noteq> []) \<and>
    length (strip_class is_trimmable
      (collapse_ws (replace_class is_illegal (CHR ''_'') (name_part f)))) \<le> 200 \<longrightarrow>
      sanitizeFilename (sanitizeFilename f u) u = sanitizeFilename f u)"
proof (intro conjI impI)
  show "sanitizeFolderName (sanitizeFolderName s) = sanitizeFolderName s \<longleftrightarrow>
      \<not> is_space (last (sanitizeFolderName s))" by (rule sanitizeFolderName_twice_iff)
  show "sanitizeFilename (sanitizeFilename f u) u = sanitizeFilename f u \<longleftrightarrow>
      \<not> is_trimmable (last (name_part (sanitizeFilename f u)))" by (rule sanitizeFilename_twice_iff)
next
  assume "length (trim (collapse_ws (replace_class is_illegal (CHR '' '') s))) \<le> 100"
  then have "\<not> is_space (last (sanitizeFolderName s))" by (rule last_sanitizeFolderName)
  then show "sanitizeFolderName (sanitizeFolderName s) = sanitizeFolderName s"
    by (simp add: sanitizeFolderName_twice_iff)
next
  assume a: "(hasExtension f \<or> urlExtension u \<noteq> []) \<and>
    length (strip_class is_trimmable
      (collapse_ws (replace_class is_illegal (CHR ''_'') (name_part f)))) \<le> 200"
  then have "name_part (sanitizeFilename f u) = sanitizedName (name_part f)"
    by (intro name_part_result) simp
  moreover from a have "\<not> is_trimmable (last (sanitizedName (name_part f)))"
    by (intro last_sanitizedName) simp
  ultimately show "sanitizeFilename (sanitizeFilename f u) u = sanitizeFilename f u"
    by (simp add: sanitizeFilename_twice_iff)
qed

text \<open>The label and the file name of the examples above, with the default url.\<close>

theorem sanitizers_twice_witness:
  "sanitizeFolderName (sanitizeFolderName ''Homework #1: A/B'') =
     sanitizeFolderName ''Homework #1: A/B'' \<and>
   sanitizeFilename (sanitizeFilename ''My File?.pdf'' []) [] =
     sanitizeFilename ''My File?.pdf'' []"
  using sanitizers_twice [of "''Homework #1: A/B''" "''My File?.pdf''" "[]"]
    folder_homework_short name_my_file_short hasExtension_my_file
  by blast

text \<open>
  Claim C3 as stated fails for both sanitizers, here with the default url, the empty string.
  The file name \<open>"a .pdf "\<close> has no recognized extension because of its last space; it is
  sanitized to \<open>"a .pdf"\<close>, which has one, and whose name part \<open>"a "\<close> loses its space in the
  second application. A label of 99 letters, a space and a letter is cut after the space; the
  second application trims that space.
\<close>

theorem sanitizers_twice_counterexample:
  "sanitizeFilename (sanitizeFilename ''a .pdf '' []) [] \<noteq> sanitizeFilename ''a .pdf '' [] \<and>
   sanitizeFolderName (sanitizeFolderName (replicate 99 (CHR ''a'') @ '' b'')) \<noteq>
     sanitizeFolderName (replicate 99 (CHR ''a'') @ '' b'')"
  by (simp add: sanitizeFilename_trailing_space sanitizeFilename_space_before_ext
      sanitizeFolderName_long sanitizeFolderName_long_again)

end
